theory Spec2Isabelle
  imports Main "HOL-Library.Word"
begin

section \<open>Data model\<close>

text \<open>
  The harness consists of two Python scripts: \<^verbatim>\<open>verify_denulled.py\<close> (bad-character
  analyzer, verification engine, batch verifier) and \<^verbatim>\<open>test_all_bins.py\<close> (process
  runner and dual-mode orchestrator). A Python \<^verbatim>\<open>bytes\<close> object is a list of 8-bit
  words; indexing it yields a Python integer between 0 and 255, which is \<open>uint\<close> of
  the word. Bad-character sets are Python sets of integers. Offsets and counters that
  only ever grow from zero are natural numbers; fields that can hold the sentinel
  \<open>-1\<close> are integers.
\<close>

type_synonym byte = "8 word"
type_synonym bytes = "byte list"

text \<open>Python exceptions that the modelled code can raise or catch.\<close>

datatype exn = KeyError int | OSError string

text \<open>\<^verbatim>\<open>str(n)\<close> for an integer: its decimal digits, with a minus sign when negative.\<close>

fun string_of_nat :: "nat \<Rightarrow> string" where
  "string_of_nat n =
     (if n < 10 then [char_of (48 + n)]
      else string_of_nat (n div 10) @ [char_of (48 + n mod 10)])"

declare string_of_nat.simps [simp del]

definition string_of_int :: "int \<Rightarrow> string" where
  "string_of_int k = (if k < 0 then CHR ''-'' # string_of_nat (nat (- k)) else string_of_nat (nat k))"

text \<open>
  \<^verbatim>\<open>str(e)\<close> of a caught exception: the message of an \<^verbatim>\<open>OSError\<close>, the key of a
  \<^verbatim>\<open>KeyError\<close>.
\<close>

fun str_exn :: "exn \<Rightarrow> string" where
  "str_exn (OSError msg) = msg"
| "str_exn (KeyError k) = string_of_int k"

section \<open>Bad-character analyzer (\<^verbatim>\<open>verify_denulled.py\<close>)\<close>

text \<open>
  The dictionary returned by \<^verbatim>\<open>analyze_shellcode_for_bad_chars\<close>. The entry
  \<^verbatim>\<open>bad_char_percentage\<close> is a floating-point number and is left out.
\<close>

record analysis =
  total_bytes :: nat
  bad_char_count :: nat
  bad_char_positions :: "int \<rightharpoonup> nat list"
  bad_char_sequences :: "(nat \<times> nat \<times> bytes) list"
  max_consecutive_bad_chars :: nat
  bad_chars_used :: "int set"

text \<open>
  The inner loop
  \<^verbatim>\<open>while i < len(shellcode_data) and shellcode_data[i] in bad_chars\<close>: it appends the
  byte to \<^verbatim>\<open>seq_bytes\<close> and advances \<^verbatim>\<open>i\<close>. It returns the final index and the
  collected bytes.
\<close>

function scan_run :: "bytes \<Rightarrow> int set \<Rightarrow> nat \<Rightarrow> bytes \<Rightarrow> nat \<times> bytes" where
  "scan_run shellcode_data bad_chars i seq_bytes =
     (if i < length shellcode_data \<and> uint (shellcode_data ! i) \<in> bad_chars
      then scan_run shellcode_data bad_chars (i + 1) (seq_bytes @ [shellcode_data ! i])
      else (i, seq_bytes))"
  by pat_completeness auto
termination
  by (relation "measure (\<lambda>(d, S, i, sb). length d - i)") auto

declare scan_run.simps [simp del]

text \<open>
  \<^verbatim>\<open>bad_char_positions[shellcode_data[i]].append(i)\<close>: a missing key raises
  \<^verbatim>\<open>KeyError\<close>.
\<close>

definition append_position ::
  "(int \<rightharpoonup> nat list) \<Rightarrow> int \<Rightarrow> nat \<Rightarrow> exn + (int \<rightharpoonup> nat list)" where
  "append_position positions k i =
     (case positions k of
        None \<Rightarrow> Inl (KeyError k)
      | Some ps \<Rightarrow> Inr (positions(k \<mapsto> ps @ [i])))"

lemma scan_run_bounds:
  "scan_run d S i sb = (j, sb') \<Longrightarrow> i \<le> j \<and> (i \<le> length d \<longrightarrow> j \<le> length d)"
proof (induction d S i sb arbitrary: j sb' rule: scan_run.induct)
  case (1 d S i sb)
  show ?case
  proof (cases "i < length d \<and> uint (d ! i) \<in> S")
    case True
    with "1.prems" have "scan_run d S (i + 1) (sb @ [d ! i]) = (j, sb')"
      by (simp add: scan_run.simps [of d S i sb])
    from "1.IH" [OF True this] True show ?thesis by auto
  next
    case False
    with "1.prems" show ?thesis
      by (auto simp: scan_run.simps [of d S i sb])
  qed
qed

lemma scan_run_advances:
  assumes "i < length d" and "uint (d ! i) \<in> S" and "scan_run d S i sb = (j, sb')"
  shows "i < j"
proof -
  from assms have "scan_run d S (i + 1) (sb @ [d ! i]) = (j, sb')"
    by (simp add: scan_run.simps [of d S i sb])
  then have "i + 1 \<le> j" using scan_run_bounds by blast
  then show ?thesis by simp
qed

text \<open>
  The outer loop \<^verbatim>\<open>while i < len(shellcode_data)\<close>. The loop state is the counter
  \<^verbatim>\<open>bad_char_count\<close>, the dictionary \<^verbatim>\<open>bad_char_positions\<close> and the list
  \<^verbatim>\<open>bad_char_sequences\<close>. On a bad byte the counter is incremented and the offset
  appended once, then the inner loop moves \<^verbatim>\<open>i\<close> past the whole run.
\<close>

function analyze_loop ::
  "bytes \<Rightarrow> int set \<Rightarrow> nat \<Rightarrow> nat \<Rightarrow> (int \<rightharpoonup> nat list) \<Rightarrow> (nat \<times> nat \<times> bytes) list
     \<Rightarrow> exn + (nat \<times> (int \<rightharpoonup> nat list) \<times> (nat \<times> nat \<times> bytes) list)" where
  "analyze_loop shellcode_data bad_chars i cnt positions sequences =
     (if i < length shellcode_data then
        (if uint (shellcode_data ! i) \<in> bad_chars then
           (case append_position positions (uint (shellcode_data ! i)) i of
              Inl e \<Rightarrow> Inl e
            | Inr positions' \<Rightarrow>
                analyze_loop shellcode_data bad_chars
                  (fst (scan_run shellcode_data bad_chars i []))
                  (cnt + 1)
                  positions'
                  (sequences @
                     [(i, fst (scan_run shellcode_data bad_chars i []) - i,
                       snd (scan_run shellcode_data bad_chars i []))]))
         else analyze_loop shellcode_data bad_chars (i + 1)
                cnt positions sequences)
      else Inr (cnt, positions, sequences))"
  by pat_completeness auto
termination
proof (relation "measure (\<lambda>(d, S, i, c, p, s). length d - i)", goal_cases)
  case 1
  show ?case by simp
next
  case (2 d S i c p s p')
  obtain j sb where js: "scan_run d S i [] = (j, sb)" by (cases "scan_run d S i []")
  from scan_run_advances [OF 2(1) 2(2) js] scan_run_bounds [OF js] 2(1)
  show ?case by (simp add: js)
next
  case 3
  then show ?case by simp
qed

declare analyze_loop.simps [simp del]

text \<open>\<^verbatim>\<open>max([...], default=0)\<close>.\<close>

definition max_default :: "nat list \<Rightarrow> nat \<Rightarrow> nat" where
  "max_default xs dflt = (case xs of [] \<Rightarrow> dflt | x # ys \<Rightarrow> fold max ys x)"

text \<open>
  \<^verbatim>\<open>analyze_shellcode_for_bad_chars(shellcode_data, bad_chars=None)\<close>. The position
  dictionary starts with an empty list for every member of the set.
\<close>

definition analyze_shellcode_for_bad_chars :: "bytes \<Rightarrow> int set option \<Rightarrow> exn + analysis" where
  "analyze_shellcode_for_bad_chars shellcode_data bad_chars_arg =
     (let bad_chars = (case bad_chars_arg of None \<Rightarrow> {0} | Some S \<Rightarrow> S)
      in case analyze_loop shellcode_data bad_chars 0 0
                (\<lambda>k. if k \<in> bad_chars then Some [] else None) [] of
           Inl e \<Rightarrow> Inl e
         | Inr (cnt, positions, sequences) \<Rightarrow>
             Inr \<lparr> total_bytes = length shellcode_data,
                   bad_char_count = cnt,
                   bad_char_positions = positions,
                   bad_char_sequences = sequences,
                   max_consecutive_bad_chars = max_default (map (\<lambda>seq. fst (snd seq)) sequences) 0,
                   bad_chars_used = bad_chars \<rparr>)"

text \<open>
  The runs as the specification describes them, for comparison with the loop: a run
  starts at a bad byte at which no run is open and extends over the bad bytes that
  follow it without a gap; it is reported as start offset, length and bytes.
  \<open>offset\<close> is the offset of the first byte of the list.
\<close>

function maximal_runs :: "int set \<Rightarrow> nat \<Rightarrow> bytes \<Rightarrow> (nat \<times> nat \<times> bytes) list" where
  "maximal_runs S offset [] = []"
| "maximal_runs S offset (b # bs) =
     (if uint b \<in> S
      then (offset, length (takeWhile (\<lambda>x. uint x \<in> S) (b # bs)),
            takeWhile (\<lambda>x. uint x \<in> S) (b # bs))
           # maximal_runs S (offset + length (takeWhile (\<lambda>x. uint x \<in> S) (b # bs)))
               (dropWhile (\<lambda>x. uint x \<in> S) (b # bs))
      else maximal_runs S (offset + 1) bs)"
  by pat_completeness auto
termination
  by (relation "measure (\<lambda>(S, offset, xs). length xs)")
     (auto simp: length_dropWhile_le le_imp_less_Suc)

declare maximal_runs.simps(2) [simp del]

text \<open>
  The start offsets of the runs whose first byte has the value \<open>k\<close>; used to state
  what the position lists hold.
\<close>

definition run_starts :: "int \<Rightarrow> (nat \<times> nat \<times> bytes) list \<Rightarrow> nat list" where
  "run_starts k runs =
     map fst (filter (\<lambda>r. case snd (snd r) of [] \<Rightarrow> False | x # rest \<Rightarrow> uint x = k) runs)"

section \<open>Null counter of the process runner (\<^verbatim>\<open>test_all_bins.py\<close>)\<close>

text \<open>\<^verbatim>\<open>analyze_shellcode_for_nulls\<close>: one increment for every byte equal to 0.\<close>

fun count_nulls :: "bytes \<Rightarrow> int \<Rightarrow> int" where
  "count_nulls [] null_count = null_count"
| "count_nulls (byte # rest) null_count =
     count_nulls rest (if uint byte = 0 then null_count + 1 else null_count)"

definition analyze_shellcode_for_nulls :: "bytes \<Rightarrow> int" where
  "analyze_shellcode_for_nulls shellcode_data = count_nulls shellcode_data 0"

section \<open>Verification engine (\<^verbatim>\<open>verify_denulled.py\<close>)\<close>

text \<open>
  The file system as the scripts see it. A path is absent, or it exists but
  \<^verbatim>\<open>open(path, 'rb')\<close> raises (a directory, a file without read permission; the
  string is the exception's message), or it is a file with contents.
  \<^verbatim>\<open>os.path.exists\<close> is true for the last two.
\<close>

datatype fnode = Absent | Unreadable string | Content bytes

type_synonym filesystem = "string \<Rightarrow> fnode"

definition path_exists :: "filesystem \<Rightarrow> string \<Rightarrow> bool" where
  "path_exists fs path = (fs path \<noteq> Absent)"

text \<open>
  \<^verbatim>\<open>with open(path, 'rb') as f: f.read()\<close>. For an absent path Python raises
  \<^verbatim>\<open>FileNotFoundError\<close>; its message is written here for a path without quote or
  escape characters.
\<close>

definition read_file :: "filesystem \<Rightarrow> string \<Rightarrow> exn + bytes" where
  "read_file fs path =
     (case fs path of
        Content file_data \<Rightarrow> Inr file_data
      | Unreadable msg \<Rightarrow> Inl (OSError msg)
      | Absent \<Rightarrow>
          Inl (OSError (''[Errno 2] No such file or directory: '' @ [CHR 0x27] @ path @ [CHR 0x27])))"

text \<open>
  \<^verbatim>\<open>verify_bad_char_elimination(input_file, output_file=None, bad_chars=None)\<close>. The
  function returns a Boolean; \<open>Inl\<close> is an exception that leaves the function. The
  report it prints is not part of the model. Both early returns for a missing path
  return \<^verbatim>\<open>False\<close>.
\<close>

definition verify_bad_char_elimination ::
  "filesystem \<Rightarrow> string \<Rightarrow> string option \<Rightarrow> int set option \<Rightarrow> exn + bool" where
  "verify_bad_char_elimination fs input_file output_file bad_chars_arg =
     (let bad_chars = (case bad_chars_arg of None \<Rightarrow> {0} | Some S \<Rightarrow> S) in
      if \<not> path_exists fs input_file then Inr False
      else
        case read_file fs input_file of
          Inl e \<Rightarrow> Inl e
        | Inr input_data \<Rightarrow>
           (case analyze_shellcode_for_bad_chars input_data (Some bad_chars) of
              Inl e \<Rightarrow> Inl e
            | Inr input_analysis \<Rightarrow>
               (case output_file of
                  None \<Rightarrow> Inr (bad_char_count input_analysis = 0)
                | Some output_path \<Rightarrow>
                    if \<not> path_exists fs output_path then Inr False
                    else
                      case read_file fs output_path of
                        Inl e \<Rightarrow> Inl e
                      | Inr output_data \<Rightarrow>
                         (case analyze_shellcode_for_bad_chars output_data (Some bad_chars) of
                            Inl e \<Rightarrow> Inl e
                          | Inr output_analysis \<Rightarrow>
                              (let original_bad_char_count = bad_char_count input_analysis;
                                   remaining_bad_char_count = bad_char_count output_analysis;
                                   size_change = int (total_bytes output_analysis)
                                                   - int (total_bytes input_analysis)
                               in if remaining_bad_char_count = 0 then Inr True else Inr False)))))"

section \<open>Batch verifier (\<^verbatim>\<open>verify_denulled.py\<close>)\<close>

text \<open>
  The counters \<^verbatim>\<open>stats\<close> (the key \<^verbatim>\<open>total\<close> is the field \<open>total_files\<close>) and one
  entry of the list \<^verbatim>\<open>results\<close> (the keys \<^verbatim>\<open>file\<close>, \<^verbatim>\<open>output_file\<close>,
  \<^verbatim>\<open>success\<close>, \<^verbatim>\<open>status\<close> and \<^verbatim>\<open>error\<close>).
\<close>

record batch_stats =
  total_files :: nat
  successful :: nat
  failed :: nat
  errors :: nat

record batch_result =
  entry_file :: string
  entry_output_file :: "string option"
  entry_success :: bool
  entry_status :: string
  entry_error :: "string option"

text \<open>
  The loop \<^verbatim>\<open>for i, input_file in enumerate(input_files, 1)\<close>. A Boolean result is
  tallied as \<^verbatim>\<open>SUCCESS\<close> or \<^verbatim>\<open>FAILED\<close>; only an exception reaches the
  \<^verbatim>\<open>except\<close> branch, which counts an error and, unless \<^verbatim>\<open>continue_on_error\<close> is
  set, leaves the loop.
\<close>

fun batch_loop ::
  "filesystem \<Rightarrow> bool \<Rightarrow> int set \<Rightarrow> (string \<rightharpoonup> string) \<Rightarrow> string list
     \<Rightarrow> batch_stats \<times> batch_result list \<Rightarrow> batch_stats \<times> batch_result list" where
  "batch_loop fs continue_on_error bad_chars output_mapping [] (stats, results) = (stats, results)"
| "batch_loop fs continue_on_error bad_chars output_mapping (input_file # rest) (stats, results) =
     (let output_file = output_mapping input_file in
      case verify_bad_char_elimination fs input_file output_file (Some bad_chars) of
        Inr result \<Rightarrow>
          batch_loop fs continue_on_error bad_chars output_mapping rest
            ((if result then stats\<lparr>successful := successful stats + 1\<rparr>
              else stats\<lparr>failed := failed stats + 1\<rparr>),
             results @ [\<lparr> entry_file = input_file, entry_output_file = output_file,
                           entry_success = result,
                           entry_status = (if result then ''SUCCESS'' else ''FAILED''),
                           entry_error = None \<rparr>])
      | Inl e \<Rightarrow>
          (let stats' = stats\<lparr>errors := errors stats + 1\<rparr>;
               results' = results @ [\<lparr> entry_file = input_file, entry_output_file = output_file,
                                       entry_success = False, entry_status = ''ERROR'',
                                       entry_error = Some (str_exn e) \<rparr>]
           in if \<not> continue_on_error then (stats', results')
              else batch_loop fs continue_on_error bad_chars output_mapping rest (stats', results')))"

text \<open>
  \<^verbatim>\<open>batch_verify_bad_char_elimination\<close>. File discovery (\<^verbatim>\<open>glob\<close>, \<^verbatim>\<open>rglob\<close>,
  \<^verbatim>\<open>is_file\<close>) is outside the model: \<open>input_files\<close> is the list of discovered paths.
  \<open>mirror output_dir input_file\<close> stands for
  \<^verbatim>\<open>str(Path(output_dir) / input_file.relative_to(input_path))\<close>. The mapping is only
  built when \<^verbatim>\<open>output_dir\<close> is neither \<^verbatim>\<open>None\<close> nor empty. The pair holds the
  counters and the local list \<^verbatim>\<open>results\<close>.
\<close>

definition batch_run ::
  "filesystem \<Rightarrow> (string \<Rightarrow> string \<Rightarrow> string) \<Rightarrow> string list \<Rightarrow> string option \<Rightarrow> bool
     \<Rightarrow> int set option \<Rightarrow> batch_stats \<times> batch_result list" where
  "batch_run fs mirror input_files output_dir continue_on_error bad_chars_arg =
     (let bad_chars = (case bad_chars_arg of None \<Rightarrow> {0} | Some S \<Rightarrow> S) in
      if input_files = [] then
        (\<lparr> total_files = 0, successful = 0, failed = 0, errors = 0 \<rparr>, [])
      else
        (let output_mapping =
               (case output_dir of
                  None \<Rightarrow> Map.empty
                | Some dir \<Rightarrow>
                    if dir = [] then Map.empty
                    else (\<lambda>f. if f \<in> set input_files then Some (mirror dir f) else None))
         in batch_loop fs continue_on_error bad_chars output_mapping input_files
              (\<lparr> total_files = length input_files, successful = 0, failed = 0, errors = 0 \<rparr>, [])))"

text \<open>The value the function returns: the counters.\<close>

definition batch_verify_bad_char_elimination ::
  "filesystem \<Rightarrow> (string \<Rightarrow> string \<Rightarrow> string) \<Rightarrow> string list \<Rightarrow> string option \<Rightarrow> bool
     \<Rightarrow> int set option \<Rightarrow> batch_stats" where
  "batch_verify_bad_char_elimination fs mirror input_files output_dir continue_on_error bad_chars_arg =
     fst (batch_run fs mirror input_files output_dir continue_on_error bad_chars_arg)"

text \<open>
  The entry that the loop appends after a verification that returned; it is used to
  state what the loop computes.
\<close>

definition normal_entry :: "string \<Rightarrow> string option \<Rightarrow> bool \<Rightarrow> batch_result" where
  "normal_entry input_file output_file result =
     \<lparr> entry_file = input_file, entry_output_file = output_file, entry_success = result,
       entry_status = (if result then ''SUCCESS'' else ''FAILED''), entry_error = None \<rparr>"

section \<open>Process runner (\<^verbatim>\<open>test_all_bins.py\<close>)\<close>

text \<open>
  What \<^verbatim>\<open>subprocess.run(cmd, capture_output=True, text=True, timeout=timeout)\<close> does is
  decided by the external transformer: it returns a completed process (return code,
  standard output, standard error), raises \<^verbatim>\<open>TimeoutExpired\<close>, or raises another
  exception (the string is its message).
\<close>

datatype proc_outcome = Completed int string string | TimeoutExpired | Raised string

text \<open>
  The dictionary \<^verbatim>\<open>result\<close>. The key \<^verbatim>\<open>output\<close> is the field \<open>output_text\<close>;
  \<^verbatim>\<open>execution_time\<close> is a float and is left out.
\<close>

record run_result =
  success :: bool
  output_text :: string
  error :: string
  exit_code :: "int option"
  timed_out :: bool
  output_data :: "bytes option"
  nulls_remaining :: int
  nulls_in_original :: int

text \<open>
  \<^verbatim>\<open>run_byvalver(input_path, output_path, args=None, timeout=120)\<close>. \<open>fs\<close> is the file
  system as the runner finds it after the process has ended. The output file is read
  only after exit code 0 and only when it exists; the original is read after it. An
  exception raised by either read is caught by \<^verbatim>\<open>except Exception\<close>, which keeps the
  fields written so far.
\<close>

definition run_byvalver ::
  "filesystem \<Rightarrow> proc_outcome \<Rightarrow> string \<Rightarrow> string \<Rightarrow> nat \<Rightarrow> run_result" where
  "run_byvalver fs process input_path output_path timeout =
     (let result = \<lparr> success = False, output_text = [], error = [], exit_code = None,
                      timed_out = False, output_data = None,
                      nulls_remaining = - 1, nulls_in_original = - 1 \<rparr>
      in case process of
           TimeoutExpired \<Rightarrow>
             result\<lparr> timed_out := True,
                     error := ''Process timed out after '' @ string_of_nat timeout @ '' seconds'' \<rparr>
         | Raised msg \<Rightarrow> result\<lparr> error := msg, success := False \<rparr>
         | Completed returncode stdout stderr \<Rightarrow>
             (let result = result\<lparr> exit_code := Some returncode, output_text := stdout,
                                   error := stderr \<rparr>
              in if returncode = 0 then
                   (if path_exists fs output_path then
                      (case read_file fs output_path of
                         Inl e \<Rightarrow> result\<lparr> error := str_exn e, success := False \<rparr>
                       | Inr produced \<Rightarrow>
                           (let result = result\<lparr> output_data := Some produced,
                                   nulls_remaining := analyze_shellcode_for_nulls produced \<rparr>
                            in case read_file fs input_path of
                                 Inl e \<Rightarrow> result\<lparr> error := str_exn e, success := False \<rparr>
                               | Inr original_data \<Rightarrow>
                                   (let result = result\<lparr> nulls_in_original :=
                                           analyze_shellcode_for_nulls original_data \<rparr>
                                    in result\<lparr> success :=
                                         (returncode = 0 \<and> nulls_remaining result = 0) \<rparr>)))
                    else result\<lparr> success := False \<rparr>)
                 else result\<lparr> success := False \<rparr>))"

section \<open>Dual-mode orchestrator (\<^verbatim>\<open>test_all_bins.py\<close>)\<close>

text \<open>
  The status chain of \<^verbatim>\<open>main\<close>, the same for both modes. \<^verbatim>\<open>exit_code\<close> may be
  \<^verbatim>\<open>None\<close>, which is different from 0.
\<close>

definition determine_status :: "run_result \<Rightarrow> string" where
  "determine_status result =
     (if timed_out result then ''TIMEOUT''
      else if success result then ''SUCCESS''
      else if exit_code result = Some 0 \<and> nulls_remaining result > 0 then ''NULLS_REMAINING''
      else if exit_code result \<noteq> Some 0 then ''ERROR''
      else ''FAILED'')"

text \<open>
  The counters of one mode: the entries of \<^verbatim>\<open>stats\<close> whose keys end in
  \<^verbatim>\<open>_biphasic\<close>, or in \<^verbatim>\<open>_non_biphasic\<close>.
\<close>

record mode_stats =
  successful_mode :: nat
  failed_mode :: nat
  timed_out_mode :: nat
  errors_mode :: nat
  total_instructions_mode :: int
  total_null_bytes_found_mode :: int
  files_with_nulls_mode :: nat
  strategies_used_mode :: "string \<rightharpoonup> nat"

text \<open>
  \<^verbatim>\<open>for strategy in parsed_stats['strategies_applied']:
    stats[...][strategy] = stats[...].get(strategy, 0) + 1\<close>
\<close>

fun count_strategies :: "string list \<Rightarrow> (string \<rightharpoonup> nat) \<Rightarrow> (string \<rightharpoonup> nat)" where
  "count_strategies [] used = used"
| "count_strategies (strategy # rest) used =
     count_strategies rest
       (used(strategy \<mapsto> (case used strategy of None \<Rightarrow> 0 | Some n \<Rightarrow> n) + 1))"

text \<open>
  The update of the counters of one mode after one run (lines 244-275 and 295-326 of
  \<^verbatim>\<open>main\<close>). The first step is the status chain again, now with the counter that
  each branch increments. The text parser \<^verbatim>\<open>parse_byvalver_output\<close> is outside the model: the two
  values \<^verbatim>\<open>main\<close> reads from its result, \<^verbatim>\<open>instructions_disassembled\<close> and
  \<^verbatim>\<open>strategies_applied\<close>, are parameters. \<^verbatim>\<open>nulls_remaining\<close> is added to the total
  as it is.
\<close>

definition update_mode_stats ::
  "mode_stats \<Rightarrow> run_result \<Rightarrow> int \<Rightarrow> string list \<Rightarrow> mode_stats" where
  "update_mode_stats stats result instructions strategies_applied =
     (let stats =
            (if timed_out result
             then stats\<lparr> timed_out_mode := timed_out_mode stats + 1 \<rparr>
             else if success result
             then stats\<lparr> successful_mode := successful_mode stats + 1 \<rparr>
             else if exit_code result = Some 0 \<and> nulls_remaining result > 0
             then stats\<lparr> failed_mode := failed_mode stats + 1 \<rparr>
             else if exit_code result \<noteq> Some 0
             then stats\<lparr> errors_mode := errors_mode stats + 1 \<rparr>
             else stats\<lparr> failed_mode := failed_mode stats + 1 \<rparr>);
          nulls = nulls_remaining result;
          stats = stats\<lparr> total_instructions_mode := total_instructions_mode stats + instructions \<rparr>;
          stats = stats\<lparr> total_null_bytes_found_mode := total_null_bytes_found_mode stats + nulls \<rparr>;
          stats = (if nulls > 0
                   then stats\<lparr> files_with_nulls_mode := files_with_nulls_mode stats + 1 \<rparr>
                   else stats)
      in stats\<lparr> strategies_used_mode :=
                  count_strategies strategies_applied (strategies_used_mode stats) \<rparr>)"

text \<open>
  One entry of \<^verbatim>\<open>results['tests']\<close>, reduced to the two status strings that the mode
  comparison reads.
\<close>

record test_entry =
  biphasic_status :: string
  non_biphasic_status :: string

text \<open>
  What the environment does for one invocation of the runner: the file system after
  the process, the outcome of the process, the path of the temporary output file and
  the two parsed statistics.
\<close>

record invocation =
  inv_fs :: filesystem
  inv_process :: proc_outcome
  inv_output_path :: string
  inv_instructions :: int
  inv_strategies :: "string list"

text \<open>
  The loop \<^verbatim>\<open>for idx, bin_file in enumerate(bin_files, 1)\<close>: each file is run in the
  biphasic mode and then in the other mode, both with the default timeout of 120
  seconds, the counters of each mode are updated and one entry is appended to the
  list of tests.
\<close>

fun run_corpus ::
  "(string \<times> invocation \<times> invocation) list \<Rightarrow> mode_stats \<times> mode_stats \<times> test_entry list
     \<Rightarrow> mode_stats \<times> mode_stats \<times> test_entry list" where
  "run_corpus [] acc = acc"
| "run_corpus ((path, biphasic, non_biphasic) # rest) (stats_biphasic, stats_non_biphasic, tests) =
     (let biphasic_result =
            run_byvalver (inv_fs biphasic) (inv_process biphasic) path
              (inv_output_path biphasic) 120;
          stats_biphasic =
            update_mode_stats stats_biphasic biphasic_result
              (inv_instructions biphasic) (inv_strategies biphasic);
          non_biphasic_result =
            run_byvalver (inv_fs non_biphasic) (inv_process non_biphasic) path
              (inv_output_path non_biphasic) 120;
          stats_non_biphasic =
            update_mode_stats stats_non_biphasic non_biphasic_result
              (inv_instructions non_biphasic) (inv_strategies non_biphasic)
      in run_corpus rest
           (stats_biphasic, stats_non_biphasic,
            tests @ [\<lparr> biphasic_status = determine_status biphasic_result,
                        non_biphasic_status = determine_status non_biphasic_result \<rparr>]))"

text \<open>
  The mode comparison: the loop \<^verbatim>\<open>for test in results['tests']\<close> with its three
  counters \<^verbatim>\<open>better_biphasic\<close>, \<^verbatim>\<open>better_non_biphasic\<close> and \<^verbatim>\<open>same_result\<close>.
\<close>

fun compare_modes :: "test_entry list \<Rightarrow> nat \<times> nat \<times> nat \<Rightarrow> nat \<times> nat \<times> nat" where
  "compare_modes [] counts = counts"
| "compare_modes (test # rest) (better_biphasic, better_non_biphasic, same_result) =
     (let biphasic_success = (biphasic_status test = ''SUCCESS'');
          non_biphasic_success = (non_biphasic_status test = ''SUCCESS'')
      in if biphasic_success \<and> \<not> non_biphasic_success
         then compare_modes rest (better_biphasic + 1, better_non_biphasic, same_result)
         else if non_biphasic_success \<and> \<not> biphasic_success
         then compare_modes rest (better_biphasic, better_non_biphasic + 1, same_result)
         else compare_modes rest (better_biphasic, better_non_biphasic, same_result + 1))"

definition mode_comparison :: "test_entry list \<Rightarrow> nat \<times> nat \<times> nat" where
  "mode_comparison tests = compare_modes tests (0, 0, 0)"

section \<open>Parsing the bad-character option (\<^verbatim>\<open>verify_denulled.py\<close>)\<close>

text \<open>
  Python strings are modelled as lists of characters with code points below 256. The
  three library functions that \<^verbatim>\<open>parse_bad_chars\<close> calls are written out for such
  strings: \<^verbatim>\<open>str.split(',')\<close>, \<^verbatim>\<open>str.strip()\<close> and \<^verbatim>\<open>int(part, 16)\<close>.
\<close>

text \<open>
  \<^verbatim>\<open>s.split(',')\<close>: the pieces between commas, empty pieces included; \<open>current\<close> is
  the piece being collected.
\<close>

fun split_comma_from :: "string \<Rightarrow> string \<Rightarrow> string list" where
  "split_comma_from [] current = [current]"
| "split_comma_from (c # cs) current =
     (if c = CHR '','' then current # split_comma_from cs []
      else split_comma_from cs (current @ [c]))"

definition split_comma :: "string \<Rightarrow> string list" where
  "split_comma s = split_comma_from s []"

text \<open>
  The characters that \<^verbatim>\<open>str.strip()\<close> removes: tab, line feed, vertical tab, form
  feed, carriage return, the separators \<open>0x1c\<close> to \<open>0x1f\<close>, space, \<open>0x85\<close> and
  \<open>0xa0\<close>.
\<close>

definition is_space :: "char \<Rightarrow> bool" where
  "is_space c =
     ((9 \<le> (of_char c :: nat) \<and> (of_char c :: nat) \<le> 13) \<or>
      (28 \<le> (of_char c :: nat) \<and> (of_char c :: nat) \<le> 32) \<or>
      (of_char c :: nat) = 133 \<or> (of_char c :: nat) = 160)"

definition strip :: "string \<Rightarrow> string" where
  "strip s = rev (dropWhile is_space (rev (dropWhile is_space s)))"

text \<open>The value of a hexadecimal digit, in either case.\<close>

definition hex_digit :: "char \<Rightarrow> nat option" where
  "hex_digit c =
     (let n = (of_char c :: nat) in
      if 48 \<le> n \<and> n \<le> 57 then Some (n - 48)
      else if 97 \<le> n \<and> n \<le> 102 then Some (n - 87)
      else if 65 \<le> n \<and> n \<le> 70 then Some (n - 55)
      else None)"

text \<open>
  The digits of \<^verbatim>\<open>int(part, 16)\<close>: hexadecimal digits, with single underscores allowed
  between them. Two underscores in a row, an underscore at the end, or any other
  character make the text invalid.
\<close>

fun hex_body :: "string \<Rightarrow> bool \<Rightarrow> nat \<Rightarrow> nat option" where
  "hex_body [] prev_underscore acc = (if prev_underscore then None else Some acc)"
| "hex_body (c # cs) prev_underscore acc =
     (if c = CHR ''_'' then (if prev_underscore then None else hex_body cs True acc)
      else (case hex_digit c of
              None \<Rightarrow> None
            | Some d \<Rightarrow> hex_body cs False (16 * acc + d)))"

text \<open>
  \<^verbatim>\<open>int(part, 16)\<close> for a text without surrounding whitespace; \<open>None\<close> stands for
  \<^verbatim>\<open>ValueError\<close>. An optional sign comes first, then an optional prefix \<^verbatim>\<open>0x\<close> or
  \<^verbatim>\<open>0X\<close>, after which one underscore may follow, then the digits, which must not be
  empty and must not begin with an underscore.
\<close>

definition py_int16 :: "string \<Rightarrow> int option" where
  "py_int16 part =
     (let negative = (case part of c # cs \<Rightarrow> c = CHR ''-'' | [] \<Rightarrow> False);
          unsigned = (case part of
                        c # cs \<Rightarrow> if c = CHR ''+'' \<or> c = CHR ''-'' then cs else part
                      | [] \<Rightarrow> part);
          digits = (case unsigned of
                      c # x # cs \<Rightarrow>
                        if c = CHR ''0'' \<and> (x = CHR ''x'' \<or> x = CHR ''X'')
                        then (case cs of u # cs' \<Rightarrow> if u = CHR ''_'' then cs' else cs
                                      | [] \<Rightarrow> cs)
                        else unsigned
                    | _ \<Rightarrow> unsigned)
      in case digits of
           [] \<Rightarrow> None
         | c # cs \<Rightarrow>
             if c = CHR ''_'' then None
             else (case hex_body digits False 0 of
                     None \<Rightarrow> None
                   | Some n \<Rightarrow> Some (if negative then - int n else int n)))"

text \<open>
  The loop \<^verbatim>\<open>for part in bad_chars_str.split(',')\<close>. The state is the set
  \<^verbatim>\<open>bad_chars\<close> and the list of warning lines printed so far. An empty part is
  skipped without a warning.
\<close>

fun parse_parts :: "string list \<Rightarrow> int set \<times> string list \<Rightarrow> int set \<times> string list" where
  "parse_parts [] (bad_chars, warnings) = (bad_chars, warnings)"
| "parse_parts (raw # rest) (bad_chars, warnings) =
     (let part = strip raw in
      if part = [] then parse_parts rest (bad_chars, warnings)
      else (case py_int16 part of
              Some byte_val \<Rightarrow>
                if 0 \<le> byte_val \<and> byte_val \<le> 255
                then parse_parts rest (insert byte_val bad_chars, warnings)
                else parse_parts rest
                       (bad_chars,
                        warnings @ [''[WARNING] Byte value out of range (0-255): '' @ part])
            | None \<Rightarrow>
                parse_parts rest
                  (bad_chars, warnings @ [''[WARNING] Invalid hex value: '' @ part])))"

text \<open>
  \<^verbatim>\<open>parse_bad_chars(bad_chars_str)\<close>: the set it returns and the warnings it prints. An
  empty argument, and an argument that yields no byte, give the default set.
\<close>

definition parse_bad_chars :: "string \<Rightarrow> int set \<times> string list" where
  "parse_bad_chars bad_chars_str =
     (if bad_chars_str = [] then ({0}, [])
      else (case parse_parts (split_comma bad_chars_str) ({}, []) of
              (bad_chars, warnings) \<Rightarrow>
                (if bad_chars \<noteq> {} then bad_chars else {0}, warnings)))"

text \<open>
  The byte that a stripped part contributes: the value of \<^verbatim>\<open>int(part, 16)\<close> when the
  call succeeds with a value from 0 to 255. This function is used to state what the
  loop computes.
\<close>

definition valid_byte :: "string \<Rightarrow> int option" where
  "valid_byte part =
     (case py_int16 part of
        Some byte_val \<Rightarrow> if 0 \<le> byte_val \<and> byte_val \<le> 255 then Some byte_val else None
      | None \<Rightarrow> None)"

text \<open>The warning line printed for a part that contributes no byte.\<close>

definition warning_line :: "string \<Rightarrow> string" where
  "warning_line part =
     (case py_int16 part of
        Some byte_val \<Rightarrow> ''[WARNING] Byte value out of range (0-255): '' @ part
      | None \<Rightarrow> ''[WARNING] Invalid hex value: '' @ part)"

section \<open>Properties of the analyzer loop\<close>

lemma analyze_loop_total:
  "(\<And>k. k \<in> S \<Longrightarrow> p k \<noteq> None) \<Longrightarrow> \<exists>r. analyze_loop d S i c p s = Inr r"
proof (induction d S i c p s rule: analyze_loop.induct)
  case (1 d S i c p s)
  show ?case
  proof (cases "i < length d")
    case False
    then show ?thesis by (simp add: analyze_loop.simps [of d S i c p s])
  next
    case inb: True
    show ?thesis
    proof (cases "uint (d ! i) \<in> S")
      case False
      from "1.IH"(2) [OF inb False] "1.prems" inb False show ?thesis
        by (simp add: analyze_loop.simps [of d S i c p s])
    next
      case bad: True
      then obtain ps where ps: "p (uint (d ! i)) = Some ps"
        using "1.prems" by blast
      have ap: "append_position p (uint (d ! i)) i = Inr (p(uint (d ! i) \<mapsto> ps @ [i]))"
        using ps by (simp add: append_position_def)
      have "\<exists>r. analyze_loop d S (fst (scan_run d S i [])) (c + 1) (p(uint (d ! i) \<mapsto> ps @ [i]))
               (s @ [(i, fst (scan_run d S i []) - i, snd (scan_run d S i []))]) = Inr r"
        by (rule "1.IH"(1) [OF inb bad ap]) (use "1.prems" in auto)
      with inb bad ap show ?thesis
        by (simp add: analyze_loop.simps [of d S i c p s])
    qed
  qed
qed

lemma analyze_loop_count:
  "analyze_loop d S i c p s = Inr (c', p', s') \<Longrightarrow> c' + length s = c + length s' \<and> length s \<le> length s'"
proof (induction d S i c p s rule: analyze_loop.induct)
  case (1 d S i c p s)
  show ?case
  proof (cases "i < length d")
    case False
    with "1.prems" show ?thesis by (simp add: analyze_loop.simps [of d S i c p s])
  next
    case inb: True
    show ?thesis
    proof (cases "uint (d ! i) \<in> S")
      case False
      from "1.prems" inb False have "analyze_loop d S (i + 1) c p s = Inr (c', p', s')"
        by (simp add: analyze_loop.simps [of d S i c p s])
      from "1.IH"(2) [OF inb False this] show ?thesis .
    next
      case bad: True
      from "1.prems" inb bad obtain p1 where
        ap: "append_position p (uint (d ! i)) i = Inr p1" and
        rec: "analyze_loop d S (fst (scan_run d S i [])) (c + 1) p1
               (s @ [(i, fst (scan_run d S i []) - i, snd (scan_run d S i []))]) = Inr (c', p', s')"
        by (auto simp: analyze_loop.simps [of d S i c p s] split: sum.splits)
      from "1.IH"(1) [OF inb bad ap rec] show ?thesis by simp
    qed
  qed
qed

lemma analyze_loop_clean:
  "analyze_loop d S i c p s = Inr (c', p', s') \<Longrightarrow>
     (c' = c) = (\<forall>k. i \<le> k \<and> k < length d \<longrightarrow> uint (d ! k) \<notin> S)"
proof (induction d S i c p s rule: analyze_loop.induct)
  case (1 d S i c p s)
  show ?case
  proof (cases "i < length d")
    case False
    with "1.prems" show ?thesis by (auto simp: analyze_loop.simps [of d S i c p s])
  next
    case inb: True
    show ?thesis
    proof (cases "uint (d ! i) \<in> S")
      case False
      from "1.prems" inb False have "analyze_loop d S (i + 1) c p s = Inr (c', p', s')"
        by (simp add: analyze_loop.simps [of d S i c p s])
      from "1.IH"(2) [OF inb False this]
      have "(c' = c) = (\<forall>k. i + 1 \<le> k \<and> k < length d \<longrightarrow> uint (d ! k) \<notin> S)" .
      also have "\<dots> = (\<forall>k. i \<le> k \<and> k < length d \<longrightarrow> uint (d ! k) \<notin> S)"
        using False by (metis Suc_eq_plus1 Suc_leI le_neq_implies_less Suc_leD)
      finally show ?thesis .
    next
      case bad: True
      from "1.prems" inb bad obtain p1 where
        ap: "append_position p (uint (d ! i)) i = Inr p1" and
        rec: "analyze_loop d S (fst (scan_run d S i [])) (c + 1) p1
               (s @ [(i, fst (scan_run d S i []) - i, snd (scan_run d S i []))]) = Inr (c', p', s')"
        by (auto simp: analyze_loop.simps [of d S i c p s] split: sum.splits)
      from analyze_loop_count [OF rec] have "c' \<noteq> c" by simp
      with inb bad show ?thesis by auto
    qed
  qed
qed

section \<open>Properties of the analyzer\<close>

lemma analyze_total: "\<exists>a. analyze_shellcode_for_bad_chars d bc = Inr a"
proof -
  let ?S = "case bc of None \<Rightarrow> {0} | Some S \<Rightarrow> S"
  have "\<exists>r. analyze_loop d ?S 0 0 (\<lambda>k. if k \<in> ?S then Some [] else None) [] = Inr r"
    by (rule analyze_loop_total) simp
  then show ?thesis
    by (auto simp: analyze_shellcode_for_bad_chars_def Let_def split: prod.splits)
qed

lemma analyze_Some_resolve:
  "analyze_shellcode_for_bad_chars d (Some (case bc of None \<Rightarrow> {0} | Some S \<Rightarrow> S)) =
   analyze_shellcode_for_bad_chars d bc"
  by (cases bc) (simp_all add: analyze_shellcode_for_bad_chars_def)

lemma analyze_count_runs:
  assumes "analyze_shellcode_for_bad_chars d bc = Inr a"
  shows "bad_char_count a = length (bad_char_sequences a)"
proof -
  let ?S = "case bc of None \<Rightarrow> {0} | Some S \<Rightarrow> S"
  from assms obtain c p s where
    loop: "analyze_loop d ?S 0 0 (\<lambda>k. if k \<in> ?S then Some [] else None) [] = Inr (c, p, s)"
    and a: "bad_char_count a = c" "bad_char_sequences a = s"
    by (auto simp: analyze_shellcode_for_bad_chars_def Let_def split: sum.splits prod.splits)
  from analyze_loop_count [OF loop] a show ?thesis by simp
qed

lemma analyze_clean_iff:
  assumes "analyze_shellcode_for_bad_chars d bc = Inr a"
  shows "(bad_char_count a = 0) = (\<forall>b\<in>set d. uint b \<notin> (case bc of None \<Rightarrow> {0} | Some S \<Rightarrow> S))"
proof -
  let ?S = "case bc of None \<Rightarrow> {0} | Some S \<Rightarrow> S"
  from assms obtain c p s where
    loop: "analyze_loop d ?S 0 0 (\<lambda>k. if k \<in> ?S then Some [] else None) [] = Inr (c, p, s)"
    and a: "bad_char_count a = c"
    by (auto simp: analyze_shellcode_for_bad_chars_def Let_def split: sum.splits prod.splits)
  from analyze_loop_clean [OF loop] a
  have "(bad_char_count a = 0) = (\<forall>k. k < length d \<longrightarrow> uint (d ! k) \<notin> ?S)" by simp
  also have "\<dots> = (\<forall>b\<in>set d. uint b \<notin> ?S)"
    by (metis in_set_conv_nth)
  finally show ?thesis .
qed

section \<open>The analyzer and the runs of the specification\<close>

lemma scan_run_takeWhile:
  "scan_run d S i sb =
     (i + length (takeWhile (\<lambda>x. uint x \<in> S) (drop i d)),
      sb @ takeWhile (\<lambda>x. uint x \<in> S) (drop i d))"
proof (induction d S i sb rule: scan_run.induct)
  case (1 d S i sb)
  show ?case
  proof (cases "i < length d \<and> uint (d ! i) \<in> S")
    case True
    then have dr: "drop i d = d ! i # drop (i + 1) d"
      by (simp add: Cons_nth_drop_Suc)
    from True "1.IH" show ?thesis
      by (simp add: scan_run.simps [of d S i sb] dr)
  next
    case False
    show ?thesis
    proof (cases "i < length d")
      case True
      then have dr: "drop i d = d ! i # drop (i + 1) d"
        by (simp add: Cons_nth_drop_Suc)
      from True False show ?thesis
        by (simp add: scan_run.simps [of d S i sb] dr)
    next
      case False
      then show ?thesis
        by (simp add: scan_run.simps [of d S i sb])
    qed
  qed
qed

lemma maximal_runs_Cons_bad:
  "uint b \<in> S \<Longrightarrow>
   maximal_runs S offset (b # bs) =
     (offset, length (takeWhile (\<lambda>x. uint x \<in> S) (b # bs)),
      takeWhile (\<lambda>x. uint x \<in> S) (b # bs))
     # maximal_runs S (offset + length (takeWhile (\<lambda>x. uint x \<in> S) (b # bs)))
         (dropWhile (\<lambda>x. uint x \<in> S) (b # bs))"
  by (simp add: maximal_runs.simps(2))

lemma maximal_runs_Cons_good:
  "uint b \<notin> S \<Longrightarrow> maximal_runs S offset (b # bs) = maximal_runs S (offset + 1) bs"
  by (simp add: maximal_runs.simps(2))

lemma maximal_runs_lengths_sum:
  "sum_list (map (\<lambda>r. fst (snd r)) (maximal_runs S offset xs))
     = length (filter (\<lambda>x. uint x \<in> S) xs)"
proof (induction S offset xs rule: maximal_runs.induct)
  case (1 S offset)
  show ?case by simp
next
  case (2 S offset b bs)
  show ?case
  proof (cases "uint b \<in> S")
    case False
    with "2.IH"(2) show ?thesis by (simp add: maximal_runs_Cons_good)
  next
    case True
    let ?P = "\<lambda>x. uint x \<in> S"
    have split: "filter ?P (b # bs) = filter ?P (takeWhile ?P (b # bs)) @ filter ?P (dropWhile ?P (b # bs))"
      by (metis filter_append takeWhile_dropWhile_id)
    have "filter ?P (takeWhile ?P (b # bs)) = takeWhile ?P (b # bs)"
      by (rule filter_True) (auto dest: set_takeWhileD)
    with split have "length (filter ?P (b # bs)) =
        length (takeWhile ?P (b # bs)) + length (filter ?P (dropWhile ?P (b # bs)))"
      by (metis length_append)
    with "2.IH"(1) [OF True] True show ?thesis
      by (simp only: maximal_runs_Cons_bad [OF True] list.map sum_list.Cons fst_conv snd_conv)
  qed
qed

lemma maximal_runs_lower: "r \<in> set (maximal_runs S offset xs) \<Longrightarrow> offset \<le> fst r"
proof (induction S offset xs rule: maximal_runs.induct)
  case (1 S offset)
  then show ?case by simp
next
  case (2 S offset b bs)
  show ?case
  proof (cases "uint b \<in> S")
    case False
    with "2.prems" "2.IH"(2) show ?thesis by (fastforce simp: maximal_runs_Cons_good)
  next
    case True
    from "2.prems" have "r = (offset, length (takeWhile (\<lambda>x. uint x \<in> S) (b # bs)),
                              takeWhile (\<lambda>x. uint x \<in> S) (b # bs)) \<or>
        r \<in> set (maximal_runs S (offset + length (takeWhile (\<lambda>x. uint x \<in> S) (b # bs)))
                   (dropWhile (\<lambda>x. uint x \<in> S) (b # bs)))"
      by (simp add: maximal_runs_Cons_bad [OF True])
    then show ?thesis
    proof
      assume "r = (offset, length (takeWhile (\<lambda>x. uint x \<in> S) (b # bs)),
                   takeWhile (\<lambda>x. uint x \<in> S) (b # bs))"
      then show ?thesis by simp
    next
      assume "r \<in> set (maximal_runs S (offset + length (takeWhile (\<lambda>x. uint x \<in> S) (b # bs)))
                   (dropWhile (\<lambda>x. uint x \<in> S) (b # bs)))"
      from "2.IH"(1) [OF True this] show ?thesis by simp
    qed
  qed
qed

lemma maximal_runs_lower_strict:
  assumes "r \<in> set (maximal_runs S offset xs)" and "xs \<noteq> []" and "uint (hd xs) \<notin> S"
  shows "offset < fst r"
proof -
  from assms(2) obtain b bs where xs: "xs = b # bs" by (cases xs) auto
  with assms(3) have "uint b \<notin> S" by simp
  with assms(1) xs have "r \<in> set (maximal_runs S (offset + 1) bs)"
    by (simp add: maximal_runs_Cons_good)
  from maximal_runs_lower [OF this] show ?thesis by simp
qed

lemma maximal_runs_after_run:
  assumes "r \<in> set (maximal_runs S offset (dropWhile (\<lambda>x. uint x \<in> S) xs))"
  shows "offset < fst r"
proof -
  let ?dw = "dropWhile (\<lambda>x. uint x \<in> S) xs"
  have ne: "?dw \<noteq> []"
  proof
    assume "?dw = []"
    with assms show False by simp
  qed
  then have "uint (hd ?dw) \<notin> S" by (rule hd_dropWhile)
  from maximal_runs_lower_strict [OF assms ne this] show ?thesis .
qed

lemma maximal_runs_separated:
  "sorted_wrt (\<lambda>r1 r2. fst r1 + fst (snd r1) < fst r2) (maximal_runs S offset xs)"
proof (induction S offset xs rule: maximal_runs.induct)
  case (1 S offset)
  show ?case by simp
next
  case (2 S offset b bs)
  show ?case
  proof (cases "uint b \<in> S")
    case False
    with "2.IH"(2) show ?thesis by (simp add: maximal_runs_Cons_good)
  next
    case True
    let ?n = "length (takeWhile (\<lambda>x. uint x \<in> S) (b # bs))"
    let ?rest = "maximal_runs S (offset + ?n) (dropWhile (\<lambda>x. uint x \<in> S) (b # bs))"
    have after: "\<forall>r\<in>set ?rest. offset + ?n < fst r"
      using maximal_runs_after_run by blast
    have "sorted_wrt (\<lambda>r1 r2. fst r1 + fst (snd r1) < fst r2) ?rest"
      by (rule "2.IH"(1) [OF True])
    with after have "sorted_wrt (\<lambda>r1 r2. fst r1 + fst (snd r1) < fst r2)
        ((offset, ?n, takeWhile (\<lambda>x. uint x \<in> S) (b # bs)) # ?rest)"
      by (simp only: sorted_wrt.simps fst_conv snd_conv simp_thms)
    then show ?thesis
      by (simp only: maximal_runs_Cons_bad [OF True])
  qed
qed


lemma maximal_runs_shape:
  "(st, len, run_bytes) \<in> set (maximal_runs S offset xs) \<Longrightarrow>
     offset \<le> st \<and> st + len \<le> offset + length xs \<and> 0 < len \<and>
     run_bytes = take len (drop (st - offset) xs) \<and>
     (\<forall>x\<in>set run_bytes. uint x \<in> S) \<and>
     (st + len < offset + length xs \<longrightarrow> uint (xs ! (st + len - offset)) \<notin> S)"
proof (induction S offset xs rule: maximal_runs.induct)
  case (1 S offset)
  then show ?case by simp
next
  case (2 S offset b bs)
  let ?P = "\<lambda>x. uint x \<in> S"
  show ?case
  proof (cases "uint b \<in> S")
    case False
    with "2.prems" have mem: "(st, len, run_bytes) \<in> set (maximal_runs S (offset + 1) bs)"
      by (simp add: maximal_runs_Cons_good)
    from "2.IH"(2) [OF False mem]
    have ih: "offset + 1 \<le> st" "st + len \<le> offset + 1 + length bs" "0 < len"
      "run_bytes = take len (drop (st - (offset + 1)) bs)"
      "\<forall>x\<in>set run_bytes. uint x \<in> S"
      "st + len < offset + 1 + length bs \<longrightarrow> uint (bs ! (st + len - (offset + 1))) \<notin> S"
      by simp_all
    from ih(1) have k: "st - offset = Suc (st - Suc offset)" by arith
    from ih(1) have m: "st + len - offset = Suc (st + len - Suc offset)" by arith
    have d: "drop (st - offset) (b # bs) = drop (st - Suc offset) bs"
      by (subst k) (simp only: drop_Suc_Cons)
    have n: "(b # bs) ! (st + len - offset) = bs ! (st + len - Suc offset)"
      by (subst m) (simp only: nth_Cons_Suc)
    from ih show ?thesis
      by (simp add: d n)
  next
    case True
    let ?tw = "takeWhile ?P (b # bs)"
    let ?n = "length ?tw"
    let ?dw = "dropWhile ?P (b # bs)"
    have npos: "0 < ?n" using True by simp
    have nle: "?n \<le> length (b # bs)" by (rule length_takeWhile_le)
    have dw: "?dw = drop ?n (b # bs)" by (rule dropWhile_eq_drop)
    from "2.prems" have "(st, len, run_bytes) = (offset, ?n, ?tw) \<or>
        (st, len, run_bytes) \<in> set (maximal_runs S (offset + ?n) ?dw)"
      by (simp only: maximal_runs_Cons_bad [OF True] set_simps insert_iff)
    then show ?thesis
    proof
      assume "(st, len, run_bytes) = (offset, ?n, ?tw)"
      then have eq: "st = offset" "len = ?n" "run_bytes = ?tw" by simp_all
      have a: "?tw = take ?n (b # bs)" by (rule takeWhile_eq_take)
      have b: "\<forall>x\<in>set ?tw. uint x \<in> S" by (auto dest: set_takeWhileD)
      have c: "?n < length (b # bs) \<longrightarrow> uint ((b # bs) ! ?n) \<notin> S"
        using nth_length_takeWhile [of ?P "b # bs"] by blast
      show ?thesis
        unfolding eq
      proof (intro conjI)
        show "offset \<le> offset" by simp
        show "offset + ?n \<le> offset + length (b # bs)" using nle by simp
        show "0 < ?n" by (rule npos)
        show "?tw = take ?n (drop (offset - offset) (b # bs))"
          using a by (simp only: diff_self_eq_0 drop_0)
        show "\<forall>x\<in>set ?tw. uint x \<in> S" by (rule b)
        show "offset + ?n < offset + length (b # bs) \<longrightarrow>
              uint ((b # bs) ! (offset + ?n - offset)) \<notin> S"
          using c by (simp only: add_diff_cancel_left' nat_add_left_cancel_less)
      qed
    next
      assume mem: "(st, len, run_bytes) \<in> set (maximal_runs S (offset + ?n) ?dw)"
      note ih0 = "2.IH"(1) [OF True mem]
      note ih = ih0 [THEN conjunct1]
        ih0 [THEN conjunct2, THEN conjunct1]
        ih0 [THEN conjunct2, THEN conjunct2, THEN conjunct1]
        ih0 [THEN conjunct2, THEN conjunct2, THEN conjunct2, THEN conjunct1]
        ih0 [THEN conjunct2, THEN conjunct2, THEN conjunct2, THEN conjunct2, THEN conjunct1]
        ih0 [THEN conjunct2, THEN conjunct2, THEN conjunct2, THEN conjunct2, THEN conjunct2]
      have len_dw: "length ?dw = length (b # bs) - ?n" by (simp only: dw length_drop)
      have total: "offset + ?n + length ?dw = offset + length (b # bs)"
        using nle len_dw by simp
      have dd: "drop (st - (offset + ?n)) ?dw = drop (st - offset) (b # bs)"
      proof -
        have "drop (st - (offset + ?n)) ?dw = drop (st - (offset + ?n) + ?n) (b # bs)"
          by (simp only: dw drop_drop)
        also have "st - (offset + ?n) + ?n = st - offset" using ih(1) by simp
        finally show ?thesis .
      qed
      have nth: "st + len < offset + length (b # bs) \<Longrightarrow>
                 ?dw ! (st + len - (offset + ?n)) = (b # bs) ! (st + len - offset)"
      proof -
        assume lt: "st + len < offset + length (b # bs)"
        have "?dw ! (st + len - (offset + ?n)) = (b # bs) ! (?n + (st + len - (offset + ?n)))"
          using nle by (simp only: dw nth_drop)
        also have "?n + (st + len - (offset + ?n)) = st + len - offset" using ih(1) by simp
        finally show ?thesis .
      qed
      have "offset \<le> st" using ih(1) by simp
      moreover have "st + len \<le> offset + length (b # bs)" using ih(2) total by simp
      moreover have "run_bytes = take len (drop (st - offset) (b # bs))" using ih(4) dd by simp
      moreover have "st + len < offset + length (b # bs) \<longrightarrow>
                     uint ((b # bs) ! (st + len - offset)) \<notin> S"
        using ih(6) total nth by auto
      ultimately show ?thesis using ih(3) ih(5) by blast
    qed
  qed
qed


lemma maximal_runs_preceded:
  "(st, len, run_bytes) \<in> set (maximal_runs S offset xs) \<Longrightarrow> offset < st \<Longrightarrow>
     uint (xs ! (st - offset - 1)) \<notin> S"
proof (induction S offset xs rule: maximal_runs.induct)
  case (1 S offset)
  then show ?case by simp
next
  case (2 S offset b bs)
  let ?P = "\<lambda>x. uint x \<in> S"
  show ?case
  proof (cases "uint b \<in> S")
    case False
    with "2.prems"(1) have mem: "(st, len, run_bytes) \<in> set (maximal_runs S (offset + 1) bs)"
      by (simp add: maximal_runs_Cons_good)
    from maximal_runs_lower [OF mem] have le: "offset + 1 \<le> st" by simp
    show ?thesis
    proof (cases "st = offset + 1")
      case True
      with False show ?thesis by simp
    next
      case ne: False
      with le have lt: "offset + 1 < st" by simp
      from "2.IH"(2) [OF False mem lt] have ih: "uint (bs ! (st - (offset + 1) - 1)) \<notin> S" .
      from lt have k: "st - offset - 1 = Suc (st - (offset + 1) - 1)" by arith
      have "(b # bs) ! (st - offset - 1) = bs ! (st - (offset + 1) - 1)"
        by (subst k) (simp only: nth_Cons_Suc)
      with ih show ?thesis by simp
    qed
  next
    case True
    let ?tw = "takeWhile ?P (b # bs)"
    let ?n = "length ?tw"
    let ?dw = "dropWhile ?P (b # bs)"
    have nle: "?n \<le> length (b # bs)" by (rule length_takeWhile_le)
    have dw: "?dw = drop ?n (b # bs)" by (rule dropWhile_eq_drop)
    from "2.prems"(1) have "(st, len, run_bytes) = (offset, ?n, ?tw) \<or>
        (st, len, run_bytes) \<in> set (maximal_runs S (offset + ?n) ?dw)"
      by (simp only: maximal_runs_Cons_bad [OF True] set_simps insert_iff)
    then show ?thesis
    proof
      assume "(st, len, run_bytes) = (offset, ?n, ?tw)"
      then have "st = offset" by simp
      with "2.prems"(2) show ?thesis by simp
    next
      assume mem: "(st, len, run_bytes) \<in> set (maximal_runs S (offset + ?n) ?dw)"
      from maximal_runs_after_run [OF mem] have lt: "offset + ?n < st" by simp
      from "2.IH"(1) [OF True mem lt] have ih: "uint (?dw ! (st - (offset + ?n) - 1)) \<notin> S" .
      have "?dw ! (st - (offset + ?n) - 1) = (b # bs) ! (?n + (st - (offset + ?n) - 1))"
        using nle by (simp only: dw nth_drop)
      also have "?n + (st - (offset + ?n) - 1) = st - offset - 1" using lt by arith
      finally have "?dw ! (st - (offset + ?n) - 1) = (b # bs) ! (st - offset - 1)" .
      with ih show ?thesis by simp
    qed
  qed
qed

lemma max_default_Max:
  "max_default xs 0 = (if xs = [] then 0 else Max (set xs))"
proof (cases xs)
  case Nil
  then show ?thesis by (simp add: max_default_def)
next
  case (Cons x ys)
  with Max.set_eq_fold [of x ys] show ?thesis by (simp add: max_default_def)
qed

lemma run_starts_Cons:
  "run_starts k ((st, len, x # rest) # runs) =
     (if uint x = k then st # run_starts k runs else run_starts k runs)"
  by (simp add: run_starts_def)

lemma analyze_loop_result:
  "(\<And>k. k \<in> S \<Longrightarrow> p k \<noteq> None) \<Longrightarrow>
   analyze_loop d S i c p s =
     Inr (c + length (maximal_runs S i (drop i d)),
          (\<lambda>k. map_option (\<lambda>l. l @ run_starts k (maximal_runs S i (drop i d))) (p k)),
          s @ maximal_runs S i (drop i d))"
proof (induction d S i c p s rule: analyze_loop.induct)
  case (1 d S i c p s)
  show ?case
  proof (cases "i < length d")
    case False
    then show ?thesis
      by (simp add: analyze_loop.simps [of d S i c p s] run_starts_def option.map_ident)
  next
    case inb: True
    then have dr: "drop i d = d ! i # drop (i + 1) d"
      by (simp add: Cons_nth_drop_Suc)
    show ?thesis
    proof (cases "uint (d ! i) \<in> S")
      case False
      have mr: "maximal_runs S i (drop i d) = maximal_runs S (i + 1) (drop (i + 1) d)"
        by (subst dr) (rule maximal_runs_Cons_good [OF False])
      from "1.IH"(2) [OF inb False] "1.prems"
      have "analyze_loop d S (i + 1) c p s =
          Inr (c + length (maximal_runs S (i + 1) (drop (i + 1) d)),
               (\<lambda>k. map_option (\<lambda>l. l @ run_starts k (maximal_runs S (i + 1) (drop (i + 1) d))) (p k)),
               s @ maximal_runs S (i + 1) (drop (i + 1) d))"
        by blast
      with inb False show ?thesis
        by (simp add: analyze_loop.simps [of d S i c p s] mr)
    next
      case bad: True
      then obtain ps where ps: "p (uint (d ! i)) = Some ps"
        using "1.prems" by blast
      let ?p1 = "p(uint (d ! i) \<mapsto> ps @ [i])"
      have ap: "append_position p (uint (d ! i)) i = Inr ?p1"
        using ps by (simp add: append_position_def)
      let ?tw = "takeWhile (\<lambda>x. uint x \<in> S) (drop i d)"
      let ?j = "i + length ?tw"
      let ?R' = "maximal_runs S ?j (drop ?j d)"
      have sr: "scan_run d S i [] = (?j, ?tw)"
        by (simp add: scan_run_takeWhile)
      have dj: "drop ?j d = dropWhile (\<lambda>x. uint x \<in> S) (drop i d)"
        by (simp add: dropWhile_eq_drop add.commute)
      have dom1: "\<And>k. k \<in> S \<Longrightarrow> ?p1 k \<noteq> None"
        using "1.prems" by auto
      note ih = "1.IH"(1) [OF inb bad ap dom1]
      have rec: "analyze_loop d S ?j (c + 1) ?p1 (s @ [(i, length ?tw, ?tw)]) =
             Inr (c + 1 + length ?R',
                  (\<lambda>k. map_option (\<lambda>l. l @ run_starts k ?R') (?p1 k)),
                  (s @ [(i, length ?tw, ?tw)]) @ ?R')"
        using ih by (simp only: sr fst_conv snd_conv add_diff_cancel_left')
      have tw: "?tw = d ! i # takeWhile (\<lambda>x. uint x \<in> S) (drop (i + 1) d)"
        using bad by (subst dr) simp
      have mr0: "maximal_runs S i (d ! i # drop (i + 1) d) =
                  (i, length (takeWhile (\<lambda>x. uint x \<in> S) (d ! i # drop (i + 1) d)),
                   takeWhile (\<lambda>x. uint x \<in> S) (d ! i # drop (i + 1) d))
                  # maximal_runs S (i + length (takeWhile (\<lambda>x. uint x \<in> S) (d ! i # drop (i + 1) d)))
                      (dropWhile (\<lambda>x. uint x \<in> S) (d ! i # drop (i + 1) d))"
        by (rule maximal_runs_Cons_bad [OF bad])
      have mr: "maximal_runs S i (drop i d) = (i, length ?tw, ?tw) # ?R'"
        using mr0 by (simp only: dr [symmetric] dj [symmetric])
      have pos: "(\<lambda>k. map_option (\<lambda>l. l @ run_starts k ?R') (?p1 k)) =
                 (\<lambda>k. map_option (\<lambda>l. l @ run_starts k ((i, length ?tw, ?tw) # ?R')) (p k))"
      proof
        fix k
        show "map_option (\<lambda>l. l @ run_starts k ?R') (?p1 k) =
              map_option (\<lambda>l. l @ run_starts k ((i, length ?tw, ?tw) # ?R')) (p k)"
        proof (cases "k = uint (d ! i)")
          case True
          have "run_starts k ((i, length ?tw, ?tw) # ?R') = i # run_starts k ?R'"
            by (subst tw) (simp add: run_starts_Cons True)
          with True ps show ?thesis by simp
        next
          case False
          have "run_starts k ((i, length ?tw, ?tw) # ?R') = run_starts k ?R'"
            using False by (subst tw) (simp add: run_starts_Cons)
          with False show ?thesis by simp
        qed
      qed
      have step: "analyze_loop d S i c p s =
                  analyze_loop d S ?j (c + 1) ?p1 (s @ [(i, length ?tw, ?tw)])"
        using inb bad ap by (simp add: analyze_loop.simps [of d S i c p s] sr)
      show ?thesis
        by (simp only: step rec mr pos) simp
    qed
  qed
qed

lemma analyze_result:
  "analyze_shellcode_for_bad_chars d bc =
     Inr \<lparr> total_bytes = length d,
           bad_char_count = length (maximal_runs (case bc of None \<Rightarrow> {0} | Some S \<Rightarrow> S) 0 d),
           bad_char_positions =
             (\<lambda>k. if k \<in> (case bc of None \<Rightarrow> {0} | Some S \<Rightarrow> S)
                  then Some (run_starts k (maximal_runs (case bc of None \<Rightarrow> {0} | Some S \<Rightarrow> S) 0 d))
                  else None),
           bad_char_sequences = maximal_runs (case bc of None \<Rightarrow> {0} | Some S \<Rightarrow> S) 0 d,
           max_consecutive_bad_chars =
             (if maximal_runs (case bc of None \<Rightarrow> {0} | Some S \<Rightarrow> S) 0 d = [] then 0
              else Max (set (map (\<lambda>r. fst (snd r))
                               (maximal_runs (case bc of None \<Rightarrow> {0} | Some S \<Rightarrow> S) 0 d)))),
           bad_chars_used = (case bc of None \<Rightarrow> {0} | Some S \<Rightarrow> S) \<rparr>"
proof -
  define S where "S = (case bc of None \<Rightarrow> {0} | Some S \<Rightarrow> S)"
  define R where "R = maximal_runs S 0 d"
  have loop: "analyze_loop d S 0 0 (\<lambda>k. if k \<in> S then Some [] else None) [] =
      Inr (length R, (\<lambda>k. if k \<in> S then Some (run_starts k R) else None), R)"
  proof -
    have "analyze_loop d S 0 0 (\<lambda>k. if k \<in> S then Some [] else None) [] =
      Inr (0 + length (maximal_runs S 0 (drop 0 d)),
          (\<lambda>k. map_option (\<lambda>l. l @ run_starts k (maximal_runs S 0 (drop 0 d)))
                  (if k \<in> S then Some [] else None)),
          [] @ maximal_runs S 0 (drop 0 d))"
      by (rule analyze_loop_result) simp
    moreover have "(\<lambda>k. map_option (\<lambda>l. l @ run_starts k R) (if k \<in> S then Some [] else None))
        = (\<lambda>k. if k \<in> S then Some (run_starts k R) else None)"
      by (rule ext) simp
    ultimately show ?thesis by (simp add: R_def)
  qed
  have mx: "max_default (map (\<lambda>seq. fst (snd seq)) R) 0 =
            (if R = [] then 0 else Max (set (map (\<lambda>r. fst (snd r)) R)))"
    by (simp add: max_default_Max)
  show ?thesis
    unfolding S_def [symmetric] R_def [symmetric]
    by (simp add: analyze_shellcode_for_bad_chars_def S_def [symmetric] loop mx)
qed

text \<open>
  What the analyzer reports, for every input: the runs are ordered and separated by at
  least one byte, each is a non-empty span of bad bytes that cannot be extended to
  either side, and their lengths add up to the number of bad bytes. The counter,
  however, is the number of runs.
\<close>

lemma analyze_sequences:
  assumes "analyze_shellcode_for_bad_chars d bc = Inr a"
  shows "bad_char_sequences a = maximal_runs (case bc of None \<Rightarrow> {0} | Some S \<Rightarrow> S) 0 d"
    and "bad_char_count a = length (bad_char_sequences a)"
    and "max_consecutive_bad_chars a =
           (if bad_char_sequences a = [] then 0
            else Max (set (map (\<lambda>r. fst (snd r)) (bad_char_sequences a))))"
  using assms by (auto simp: analyze_result)

lemma analyze_run_lengths_sum:
  assumes "analyze_shellcode_for_bad_chars d bc = Inr a"
  shows "sum_list (map (\<lambda>r. fst (snd r)) (bad_char_sequences a)) =
         length (filter (\<lambda>x. uint x \<in> (case bc of None \<Rightarrow> {0} | Some S \<Rightarrow> S)) d)"
  by (simp only: analyze_sequences(1) [OF assms] maximal_runs_lengths_sum)

lemma analyze_runs_separated:
  assumes "analyze_shellcode_for_bad_chars d bc = Inr a"
  shows "sorted_wrt (\<lambda>r1 r2. fst r1 + fst (snd r1) < fst r2) (bad_char_sequences a)"
  by (simp only: analyze_sequences(1) [OF assms] maximal_runs_separated)

lemma analyze_runs_maximal:
  assumes "analyze_shellcode_for_bad_chars d bc = Inr a"
    and "(st, len, run_bytes) \<in> set (bad_char_sequences a)"
  shows "st + len \<le> length d \<and> 0 < len \<and> run_bytes = take len (drop st d) \<and>
         (\<forall>x\<in>set run_bytes. uint x \<in> (case bc of None \<Rightarrow> {0} | Some S \<Rightarrow> S)) \<and>
         (st + len < length d \<longrightarrow>
            uint (d ! (st + len)) \<notin> (case bc of None \<Rightarrow> {0} | Some S \<Rightarrow> S)) \<and>
         (0 < st \<longrightarrow> uint (d ! (st - 1)) \<notin> (case bc of None \<Rightarrow> {0} | Some S \<Rightarrow> S))"
proof -
  let ?S = "case bc of None \<Rightarrow> {0} | Some S \<Rightarrow> S"
  from assms have mem: "(st, len, run_bytes) \<in> set (maximal_runs ?S 0 d)"
    by (simp only: analyze_sequences(1) [OF assms(1)])
  from maximal_runs_shape [OF mem] maximal_runs_preceded [OF mem]
  show ?thesis by simp
qed

section \<open>Claims about the analyzer\<close>

text \<open>
  Claim C1. The claim says that \<^verbatim>\<open>bad_char_count\<close> is the number of offsets whose
  byte belongs to the set, that each such offset is recorded in the position list of
  its byte value, and that the input \<^verbatim>\<open>b"\x00\x00\x01"\<close> with the set \<open>{0}\<close> gives
  the count 2. The loop increments the counter and appends the offset only at the
  first byte of a run; the inner loop then skips the remaining bytes of the run. On
  the input of the claim the code returns the count 1 and records only offset 0.
  For every input the counter is the number of runs and the position lists hold the
  start offsets of the runs (lemma \<open>analyze_result\<close>).
\<close>

theorem analyzer_counts_first_byte_of_run_only:
  "map_sum id (\<lambda>a. (bad_char_count a, bad_char_positions a 0))
     (analyze_shellcode_for_bad_chars [0, 0, 1] (Some {0})) = Inr (1, Some [0])"
  by (simp add: analyze_shellcode_for_bad_chars_def analyze_loop.simps scan_run.simps
      append_position_def max_default_def)

text \<open>
  Claim C2. The claim says that the reported runs are the maximal spans of bad bytes,
  that no two runs are adjacent, that the run lengths add up to \<^verbatim>\<open>bad_char_count\<close>
  and that \<^verbatim>\<open>max_consecutive_bad_chars\<close> is the longest run length. On the input
  \<^verbatim>\<open>b"\x00\x00\x01"\<close> with the set \<open>{0}\<close> the code reports the single run at offset 0
  of length 2 and the maximum 2, but the count 1: the run lengths add up to 2, which
  is not the reported count. For every input the runs are reported as the claim says
  (lemmas \<open>analyze_runs_maximal\<close>, \<open>analyze_runs_separated\<close> and
  \<open>analyze_sequences\<close>) and their lengths add up to the number of bad bytes (lemma
  \<open>analyze_run_lengths_sum\<close>); it is the counter that differs from that number.
\<close>

theorem analyzer_run_lengths_differ_from_count:
  "map_sum id (\<lambda>a. (bad_char_sequences a,
                     sum_list (map (\<lambda>seq. fst (snd seq)) (bad_char_sequences a)),
                     bad_char_count a,
                     max_consecutive_bad_chars a))
     (analyze_shellcode_for_bad_chars [0, 0, 1] (Some {0}))
   = Inr ([(0, 2, [0, 0])], 2, 1, 2)"
  by (simp add: analyze_shellcode_for_bad_chars_def analyze_loop.simps scan_run.simps
      append_position_def max_default_def)

text \<open>
  Claim C7. The claim says that the null count of the process runner equals the
  \<^verbatim>\<open>bad_char_count\<close> of the analyzer with the set \<open>{0}\<close>. On the two-byte input
  \<^verbatim>\<open>b"\x00\x00"\<close> the runner counts 2 and the analyzer reports 1.
\<close>

theorem null_recount_differs_from_analyzer:
  "analyze_shellcode_for_nulls [0, 0] = 2 \<and>
   map_sum id bad_char_count (analyze_shellcode_for_bad_chars [0, 0] (Some {0})) = Inr 1"
  by (simp add: analyze_shellcode_for_nulls_def analyze_shellcode_for_bad_chars_def
      analyze_loop.simps scan_run.simps append_position_def max_default_def)

section \<open>Claims about the verification engine\<close>

text \<open>
  Claim C3. When the original and the processed path both name files with contents,
  the engine returns normally, and the value it returns is true exactly when the
  \<^verbatim>\<open>bad_char_count\<close> of the processed file's analysis is 0. That count is 0 exactly when
  no byte of the processed file belongs to the set. Neither the contents of the
  original nor the difference of the sizes occurs on the right-hand side.
\<close>

theorem verify_pass_iff_processed_clean:
  assumes "fs input_file = Content original" and "fs output_path = Content processed"
  shows "\<exists>output_analysis.
           analyze_shellcode_for_bad_chars processed bad_chars_arg = Inr output_analysis \<and>
           verify_bad_char_elimination fs input_file (Some output_path) bad_chars_arg
             = Inr (bad_char_count output_analysis = 0) \<and>
           (bad_char_count output_analysis = 0) =
             (\<forall>b\<in>set processed. uint b \<notin> (case bad_chars_arg of None \<Rightarrow> {0} | Some S \<Rightarrow> S))"
proof -
  obtain ia where ia: "analyze_shellcode_for_bad_chars original bad_chars_arg = Inr ia"
    using analyze_total by blast
  obtain oa where oa: "analyze_shellcode_for_bad_chars processed bad_chars_arg = Inr oa"
    using analyze_total by blast
  have v: "verify_bad_char_elimination fs input_file (Some output_path) bad_chars_arg
          = Inr (bad_char_count oa = 0)"
    using assms ia oa
    by (simp add: verify_bad_char_elimination_def path_exists_def read_file_def
        analyze_Some_resolve Let_def)
  show ?thesis
  proof (intro exI conjI)
    show "analyze_shellcode_for_bad_chars processed bad_chars_arg = Inr oa" by (rule oa)
    show "verify_bad_char_elimination fs input_file (Some output_path) bad_chars_arg
            = Inr (bad_char_count oa = 0)" by (rule v)
    show "(bad_char_count oa = 0) =
            (\<forall>b\<in>set processed. uint b \<notin> (case bad_chars_arg of None \<Rightarrow> {0} | Some S \<Rightarrow> S))"
      by (rule analyze_clean_iff [OF oa])
  qed
qed

theorem verify_pass_iff_processed_clean_witness:
  "verify_bad_char_elimination
     (\<lambda>p. if p = ''in.bin'' then Content [0, 1]
           else if p = ''out.bin'' then Content [1, 2] else Absent)
     ''in.bin'' (Some ''out.bin'') None = Inr True \<and>
   verify_bad_char_elimination
     (\<lambda>p. if p = ''in.bin'' then Content [0, 1]
           else if p = ''out.bin'' then Content [0, 2] else Absent)
     ''in.bin'' (Some ''out.bin'') None = Inr False"
  using
    verify_pass_iff_processed_clean
      [of "\<lambda>p. if p = ''in.bin'' then Content [0, 1]
                else if p = ''out.bin'' then Content [1, 2] else Absent"
          "''in.bin''" "[0, 1]" "''out.bin''" "[1, 2]" None]
    verify_pass_iff_processed_clean
      [of "\<lambda>p. if p = ''in.bin'' then Content [0, 1]
                else if p = ''out.bin'' then Content [0, 2] else Absent"
          "''in.bin''" "[0, 1]" "''out.bin''" "[0, 2]" None]
  by auto

text \<open>
  Claim C6. The claim says that a missing original path, or a missing processed path,
  gives a hard error that differs from a fail verdict. The engine returns
  \<^verbatim>\<open>False\<close> at both guards, which is the value of a fail verdict: the first call below
  has no original file, the second has an original and a processed file that still
  holds a null byte, and both return the same value.
\<close>

theorem missing_file_same_value_as_fail_verdict:
  "verify_bad_char_elimination (\<lambda>p. Absent) ''in.bin'' (Some ''out.bin'') (Some {0})
     = Inr False \<and>
   verify_bad_char_elimination
     (\<lambda>p. if p = ''in.bin'' then Content [0, 1]
           else if p = ''out.bin'' then Content [0, 2] else Absent)
     ''in.bin'' (Some ''out.bin'') (Some {0}) = Inr False"
  by (simp add: verify_bad_char_elimination_def path_exists_def read_file_def
      analyze_shellcode_for_bad_chars_def analyze_loop.simps scan_run.simps
      append_position_def Let_def)

text \<open>
  Claim C6, as amended. When the original path does not exist the engine returns
  \<^verbatim>\<open>False\<close>; when the original is a file with contents and a processed path is given
  that does not exist, the engine returns \<^verbatim>\<open>False\<close> as well. This is the value of a
  fail verdict.
\<close>

theorem missing_file_returns_false:
  "(fs input_file = Absent \<longrightarrow>
      verify_bad_char_elimination fs input_file output_file bad_chars_arg = Inr False) \<and>
   (fs input_file = Content original \<and> fs output_path = Absent \<longrightarrow>
      verify_bad_char_elimination fs input_file (Some output_path) bad_chars_arg = Inr False)"
proof (intro conjI impI)
  assume "fs input_file = Absent"
  then show "verify_bad_char_elimination fs input_file output_file bad_chars_arg = Inr False"
    by (simp add: verify_bad_char_elimination_def path_exists_def)
next
  assume a: "fs input_file = Content original \<and> fs output_path = Absent"
  obtain ia where "analyze_shellcode_for_bad_chars original bad_chars_arg = Inr ia"
    using analyze_total by blast
  with a show "verify_bad_char_elimination fs input_file (Some output_path) bad_chars_arg
                 = Inr False"
    by (simp add: verify_bad_char_elimination_def path_exists_def read_file_def
        analyze_Some_resolve Let_def)
qed

theorem missing_file_returns_false_witness:
  "verify_bad_char_elimination (\<lambda>p. Absent) ''in.bin'' None None = Inr False \<and>
   verify_bad_char_elimination
     (\<lambda>p. if p = ''in.bin'' then Content [1] else Absent)
     ''in.bin'' (Some ''out.bin'') None = Inr False"
  using
    missing_file_returns_false [of "\<lambda>p. Absent" "''in.bin''" None None "[]" "''out.bin''"]
    missing_file_returns_false
      [of "\<lambda>p. if p = ''in.bin'' then Content [1] else Absent"
          "''in.bin''" None None "[1]" "''out.bin''"]
  by simp

section \<open>Properties of the runner and the comparison loop\<close>

lemma count_nulls_ge: "null_count \<le> count_nulls bs null_count"
proof (induction bs arbitrary: null_count)
  case Nil
  show ?case by simp
next
  case (Cons b bs)
  have "null_count \<le> (if uint b = 0 then null_count + 1 else null_count)" by simp
  also have "\<dots> \<le> count_nulls bs (if uint b = 0 then null_count + 1 else null_count)"
    by (rule Cons.IH)
  finally show ?case by simp
qed

lemma analyze_shellcode_for_nulls_nonneg: "0 \<le> analyze_shellcode_for_nulls bs"
  unfolding analyze_shellcode_for_nulls_def by (rule count_nulls_ge)

lemma compare_modes_counts:
  "compare_modes tests (a, b, c) =
     (a + length (filter (\<lambda>t. biphasic_status t = ''SUCCESS'' \<and> non_biphasic_status t \<noteq> ''SUCCESS'') tests),
      b + length (filter (\<lambda>t. non_biphasic_status t = ''SUCCESS'' \<and> biphasic_status t \<noteq> ''SUCCESS'') tests),
      c + length (filter (\<lambda>t. (biphasic_status t = ''SUCCESS'') = (non_biphasic_status t = ''SUCCESS'')) tests))"
proof (induction tests arbitrary: a b c)
  case Nil
  show ?case by simp
next
  case (Cons t ts)
  show ?case by (simp add: Cons.IH Let_def) 
qed

lemma partition3_length:
  "length (filter (\<lambda>t. P t \<and> \<not> Q t) xs) + length (filter (\<lambda>t. Q t \<and> \<not> P t) xs)
     + length (filter (\<lambda>t. P t = Q t) xs) = length xs"
  by (induction xs) auto

lemma run_corpus_tests_length:
  "run_corpus files (sb, sn, tests) = (sb', sn', tests') \<Longrightarrow> length tests' = length tests + length files"
proof (induction files arbitrary: sb sn tests)
  case Nil
  then show ?case by simp
next
  case (Cons f fs)
  obtain path bi nb where f: "f = (path, bi, nb)" by (cases f)
  from Cons.prems show ?case
    unfolding f by (simp add: Let_def) (drule Cons.IH, simp)
qed

section \<open>Claims about the process runner and the orchestrator\<close>

text \<open>
  Claim C4. The claim lists the outcome for a timeout, for exit code 0 with the output
  present and no null byte left, for exit code 0 with null bytes left, for a non-zero
  exit code and for exit code 0 without an output file. It says that exit code 0, an
  output file and a recount of 0 always give \<^verbatim>\<open>SUCCESS\<close>. The runner reads the
  original file after the output file; when that read raises, the exception handler
  leaves \<^verbatim>\<open>success\<close> false although the recount of the output is already 0, and the
  status chain falls through to \<^verbatim>\<open>FAILED\<close>.
\<close>

theorem unreadable_original_is_failed:
  "path_exists (\<lambda>p. if p = ''out.bin'' then Content [1]
                     else if p = ''in.bin'' then Unreadable ''Permission denied'' else Absent)
     ''out.bin'' \<and>
   run_byvalver
     (\<lambda>p. if p = ''out.bin'' then Content [1]
           else if p = ''in.bin'' then Unreadable ''Permission denied'' else Absent)
     (Completed 0 [] []) ''in.bin'' ''out.bin'' 120
   = \<lparr> success = False, output_text = [], error = ''Permission denied'',
       exit_code = Some 0, timed_out = False, output_data = Some [1],
       nulls_remaining = 0, nulls_in_original = - 1 \<rparr> \<and>
   determine_status
     (run_byvalver
        (\<lambda>p. if p = ''out.bin'' then Content [1]
              else if p = ''in.bin'' then Unreadable ''Permission denied'' else Absent)
        (Completed 0 [] []) ''in.bin'' ''out.bin'' 120) = ''FAILED''"
  by (simp add: run_byvalver_def determine_status_def path_exists_def read_file_def
      analyze_shellcode_for_nulls_def Let_def)

text \<open>
  Claim C4, as amended. The status is decided in the order of the claim: a timeout
  gives \<^verbatim>\<open>TIMEOUT\<close>; a process that could not be run, or a non-zero exit code (with or
  without an output file), gives \<^verbatim>\<open>ERROR\<close>; exit code 0 without an output file gives
  \<^verbatim>\<open>FAILED\<close>; exit code 0 with an output file that holds null bytes gives
  \<^verbatim>\<open>NULLS_REMAINING\<close>; exit code 0 with an output file without null bytes gives
  \<^verbatim>\<open>SUCCESS\<close> when the original file can be read, and \<^verbatim>\<open>FAILED\<close> when it cannot. An
  output file that exists but cannot be read gives \<^verbatim>\<open>FAILED\<close>. The five status
  strings are pairwise different.
\<close>

theorem classification_of_run:
  "determine_status (run_byvalver fs process input_path output_path timeout) =
     (case process of
        TimeoutExpired \<Rightarrow> ''TIMEOUT''
      | Raised msg \<Rightarrow> ''ERROR''
      | Completed returncode stdout stderr \<Rightarrow>
          if returncode \<noteq> 0 then ''ERROR''
          else (case fs output_path of
                  Absent \<Rightarrow> ''FAILED''
                | Unreadable msg \<Rightarrow> ''FAILED''
                | Content produced \<Rightarrow>
                    if analyze_shellcode_for_nulls produced > 0 then ''NULLS_REMAINING''
                    else (case fs input_path of
                            Content original_data \<Rightarrow> ''SUCCESS''
                          | Unreadable msg \<Rightarrow> ''FAILED''
                          | Absent \<Rightarrow> ''FAILED''))) \<and>
   distinct [''TIMEOUT'', ''SUCCESS'', ''NULLS_REMAINING'', ''ERROR'', ''FAILED'']"
proof
  show "distinct [''TIMEOUT'', ''SUCCESS'', ''NULLS_REMAINING'', ''ERROR'', ''FAILED'']"
    by simp
next
  let ?goal = "determine_status (run_byvalver fs process input_path output_path timeout) =
     (case process of
        TimeoutExpired \<Rightarrow> ''TIMEOUT''
      | Raised msg \<Rightarrow> ''ERROR''
      | Completed returncode stdout stderr \<Rightarrow>
          if returncode \<noteq> 0 then ''ERROR''
          else (case fs output_path of
                  Absent \<Rightarrow> ''FAILED''
                | Unreadable msg \<Rightarrow> ''FAILED''
                | Content produced \<Rightarrow>
                    if analyze_shellcode_for_nulls produced > 0 then ''NULLS_REMAINING''
                    else (case fs input_path of
                            Content original_data \<Rightarrow> ''SUCCESS''
                          | Unreadable msg \<Rightarrow> ''FAILED''
                          | Absent \<Rightarrow> ''FAILED'')))"
  show ?goal
  proof (cases process)
    case TimeoutExpired
    then show ?thesis by (simp add: run_byvalver_def determine_status_def)
  next
    case (Raised msg)
    then show ?thesis by (simp add: run_byvalver_def determine_status_def)
  next
    case (Completed returncode stdout stderr)
    show ?thesis
    proof (cases "returncode = 0")
      case False
      with Completed show ?thesis by (simp add: run_byvalver_def determine_status_def)
    next
      case rc: True
      show ?thesis
      proof (cases "fs output_path")
        case Absent
        with Completed rc show ?thesis
          by (simp add: run_byvalver_def determine_status_def path_exists_def)
      next
        case (Unreadable msg)
        with Completed rc show ?thesis
          by (simp add: run_byvalver_def determine_status_def path_exists_def read_file_def)
      next
        case (Content produced)
        have nn: "0 \<le> analyze_shellcode_for_nulls produced"
          by (rule analyze_shellcode_for_nulls_nonneg)
        show ?thesis
        proof (cases "fs input_path")
          case Absent
          with Completed rc Content nn show ?thesis
            by (simp add: run_byvalver_def determine_status_def path_exists_def
                read_file_def Let_def)
        next
          case (Unreadable msg)
          with Completed rc Content nn show ?thesis
            by (simp add: run_byvalver_def determine_status_def path_exists_def
                read_file_def Let_def)
        next
          case c2: (Content original_data)
          with Completed rc Content nn show ?thesis
            by (auto simp: run_byvalver_def determine_status_def path_exists_def
                read_file_def Let_def)
        qed
      qed
    qed
  qed
qed

theorem classification_of_run_witness:
  "determine_status (run_byvalver (\<lambda>p. Absent) TimeoutExpired ''in.bin'' ''out.bin'' 120)
     = ''TIMEOUT'' \<and>
   determine_status
     (run_byvalver (\<lambda>p. if p = ''in.bin'' then Content [0, 1]
                         else if p = ''out.bin'' then Content [1, 2] else Absent)
        (Completed 0 [] []) ''in.bin'' ''out.bin'' 120) = ''SUCCESS'' \<and>
   determine_status
     (run_byvalver (\<lambda>p. if p = ''in.bin'' then Content [0, 1]
                         else if p = ''out.bin'' then Content [0, 2] else Absent)
        (Completed 0 [] []) ''in.bin'' ''out.bin'' 120) = ''NULLS_REMAINING'' \<and>
   determine_status
     (run_byvalver (\<lambda>p. if p = ''in.bin'' then Content [0, 1]
                         else if p = ''out.bin'' then Content [1, 2] else Absent)
        (Completed 2 [] []) ''in.bin'' ''out.bin'' 120) = ''ERROR'' \<and>
   determine_status
     (run_byvalver (\<lambda>p. if p = ''in.bin'' then Content [0, 1] else Absent)
        (Completed 0 [] []) ''in.bin'' ''out.bin'' 120) = ''FAILED''"
  using
    classification_of_run [of "\<lambda>p. Absent" TimeoutExpired "''in.bin''" "''out.bin''" 120]
    classification_of_run
      [of "\<lambda>p. if p = ''in.bin'' then Content [0, 1]
                else if p = ''out.bin'' then Content [1, 2] else Absent"
          "Completed 0 [] []" "''in.bin''" "''out.bin''" 120]
    classification_of_run
      [of "\<lambda>p. if p = ''in.bin'' then Content [0, 1]
                else if p = ''out.bin'' then Content [0, 2] else Absent"
          "Completed 0 [] []" "''in.bin''" "''out.bin''" 120]
    classification_of_run
      [of "\<lambda>p. if p = ''in.bin'' then Content [0, 1]
                else if p = ''out.bin'' then Content [1, 2] else Absent"
          "Completed 2 [] []" "''in.bin''" "''out.bin''" 120]
    classification_of_run
      [of "\<lambda>p. if p = ''in.bin'' then Content [0, 1] else Absent"
          "Completed 0 [] []" "''in.bin''" "''out.bin''" 120]
  by (simp add: analyze_shellcode_for_nulls_def)

text \<open>
  Claim C9. The comparison loop puts every test into one of three buckets that exclude
  each other: the biphasic mode has status \<^verbatim>\<open>SUCCESS\<close> and the other mode has not, the
  other mode has it and the biphasic mode has not, or both have it or both lack it.
  The three counts add up to the number of tests, which is the number of files of the
  corpus. For two files, the first a success of the biphasic mode only and the second
  a success of both modes, the counts are 1, 0 and 1.
\<close>

theorem mode_comparison_buckets:
  "(case mode_comparison tests of
      (better_biphasic, better_non_biphasic, same_result) \<Rightarrow>
        better_biphasic =
          length (filter (\<lambda>t. biphasic_status t = ''SUCCESS'' \<and>
                               non_biphasic_status t \<noteq> ''SUCCESS'') tests) \<and>
        better_non_biphasic =
          length (filter (\<lambda>t. non_biphasic_status t = ''SUCCESS'' \<and>
                               biphasic_status t \<noteq> ''SUCCESS'') tests) \<and>
        same_result =
          length (filter (\<lambda>t. (biphasic_status t = ''SUCCESS'') =
                               (non_biphasic_status t = ''SUCCESS'')) tests) \<and>
        better_biphasic + better_non_biphasic + same_result = length tests) \<and>
   (case run_corpus files (stats_biphasic, stats_non_biphasic, []) of
      (stats_biphasic', stats_non_biphasic', corpus_tests) \<Rightarrow>
        (case mode_comparison corpus_tests of
           (better_biphasic, better_non_biphasic, same_result) \<Rightarrow>
             better_biphasic + better_non_biphasic + same_result = length files)) \<and>
   mode_comparison
     [\<lparr> biphasic_status = ''SUCCESS'', non_biphasic_status = ''NULLS_REMAINING'' \<rparr>,
      \<lparr> biphasic_status = ''SUCCESS'', non_biphasic_status = ''SUCCESS'' \<rparr>] = (1, 0, 1)"
proof (intro conjI)
  have sum3: "\<And>ts.
      length (filter (\<lambda>t. biphasic_status t = ''SUCCESS'' \<and>
                            non_biphasic_status t \<noteq> ''SUCCESS'') ts)
    + length (filter (\<lambda>t. non_biphasic_status t = ''SUCCESS'' \<and>
                            biphasic_status t \<noteq> ''SUCCESS'') ts)
    + length (filter (\<lambda>t. (biphasic_status t = ''SUCCESS'') =
                            (non_biphasic_status t = ''SUCCESS'')) ts) = length ts"
    by (rule partition3_length)
  show "case mode_comparison tests of
      (better_biphasic, better_non_biphasic, same_result) \<Rightarrow>
        better_biphasic =
          length (filter (\<lambda>t. biphasic_status t = ''SUCCESS'' \<and>
                               non_biphasic_status t \<noteq> ''SUCCESS'') tests) \<and>
        better_non_biphasic =
          length (filter (\<lambda>t. non_biphasic_status t = ''SUCCESS'' \<and>
                               biphasic_status t \<noteq> ''SUCCESS'') tests) \<and>
        same_result =
          length (filter (\<lambda>t. (biphasic_status t = ''SUCCESS'') =
                               (non_biphasic_status t = ''SUCCESS'')) tests) \<and>
        better_biphasic + better_non_biphasic + same_result = length tests"
    using sum3 [of tests] by (simp add: mode_comparison_def compare_modes_counts)
  show "case run_corpus files (stats_biphasic, stats_non_biphasic, []) of
      (stats_biphasic', stats_non_biphasic', corpus_tests) \<Rightarrow>
        (case mode_comparison corpus_tests of
           (better_biphasic, better_non_biphasic, same_result) \<Rightarrow>
             better_biphasic + better_non_biphasic + same_result = length files)"
  proof -
    obtain sb sn ts where r: "run_corpus files (stats_biphasic, stats_non_biphasic, []) = (sb, sn, ts)"
      by (cases "run_corpus files (stats_biphasic, stats_non_biphasic, [])")
    from run_corpus_tests_length [OF r] have "length ts = length files" by simp
    with sum3 [of ts] show ?thesis
      by (simp add: r mode_comparison_def compare_modes_counts)
  qed
  show "mode_comparison
     [\<lparr> biphasic_status = ''SUCCESS'', non_biphasic_status = ''NULLS_REMAINING'' \<rparr>,
      \<lparr> biphasic_status = ''SUCCESS'', non_biphasic_status = ''SUCCESS'' \<rparr>] = (1, 0, 1)"
    by (simp add: mode_comparison_def)
qed

text \<open>
  Claim C10. When the process times out or ends with a non-zero exit code, the runner
  returns with \<^verbatim>\<open>nulls_remaining\<close> and \<^verbatim>\<open>nulls_in_original\<close> still \<open>-1\<close>, and the
  orchestrator adds that \<open>-1\<close> to the total of null bytes of the mode, which
  therefore goes down by one.
\<close>

theorem timeout_or_error_keeps_sentinel:
  assumes "process = TimeoutExpired \<or>
           (\<exists>returncode stdout stderr.
              process = Completed returncode stdout stderr \<and> returncode \<noteq> 0)"
  shows "nulls_remaining (run_byvalver fs process input_path output_path timeout) = - 1 \<and>
         nulls_in_original (run_byvalver fs process input_path output_path timeout) = - 1 \<and>
         total_null_bytes_found_mode
           (update_mode_stats stats (run_byvalver fs process input_path output_path timeout)
              instructions strategies_applied)
         = total_null_bytes_found_mode stats - 1"
  using assms
  by (auto simp: run_byvalver_def update_mode_stats_def Let_def)

theorem timeout_or_error_keeps_sentinel_witness:
  "total_null_bytes_found_mode
     (update_mode_stats
        \<lparr> successful_mode = 0, failed_mode = 0, timed_out_mode = 0, errors_mode = 0,
          total_instructions_mode = 0, total_null_bytes_found_mode = 5,
          files_with_nulls_mode = 0, strategies_used_mode = Map.empty \<rparr>
        (run_byvalver (\<lambda>p. Content [0]) TimeoutExpired ''in.bin'' ''out.bin'' 120) 7 [])
     = 4 \<and>
   total_null_bytes_found_mode
     (update_mode_stats
        \<lparr> successful_mode = 0, failed_mode = 0, timed_out_mode = 0, errors_mode = 0,
          total_instructions_mode = 0, total_null_bytes_found_mode = 5,
          files_with_nulls_mode = 0, strategies_used_mode = Map.empty \<rparr>
        (run_byvalver (\<lambda>p. Content [0]) (Completed 2 [] []) ''in.bin'' ''out.bin'' 120) 7 [])
     = 4"
  using
    timeout_or_error_keeps_sentinel
      [of TimeoutExpired "\<lambda>p. Content [0]" "''in.bin''" "''out.bin''" 120
          "\<lparr> successful_mode = 0, failed_mode = 0, timed_out_mode = 0, errors_mode = 0,
            total_instructions_mode = 0, total_null_bytes_found_mode = 5,
            files_with_nulls_mode = 0, strategies_used_mode = Map.empty \<rparr>" 7 "[]"]
    timeout_or_error_keeps_sentinel
      [of "Completed 2 [] []" "\<lambda>p. Content [0]" "''in.bin''" "''out.bin''" 120
          "\<lparr> successful_mode = 0, failed_mode = 0, timed_out_mode = 0, errors_mode = 0,
            total_instructions_mode = 0, total_null_bytes_found_mode = 5,
            files_with_nulls_mode = 0, strategies_used_mode = Map.empty \<rparr>" 7 "[]"]
  by simp

section \<open>Properties of the verification engine and the batch loop\<close>

lemma verify_missing_input:
  "fs input_file = Absent \<Longrightarrow>
     verify_bad_char_elimination fs input_file output_file bad_chars_arg = Inr False"
  by (simp add: verify_bad_char_elimination_def path_exists_def)

lemma verify_missing_output:
  assumes "fs input_file = Content original" and "fs output_path = Absent"
  shows "verify_bad_char_elimination fs input_file (Some output_path) bad_chars_arg = Inr False"
proof -
  obtain ia where "analyze_shellcode_for_bad_chars original bad_chars_arg = Inr ia"
    using analyze_total by blast
  with assms show ?thesis
    by (simp add: verify_bad_char_elimination_def path_exists_def read_file_def
        analyze_Some_resolve Let_def)
qed

lemma verify_returns:
  assumes "fs input_file = Content original"
    and "\<forall>msg. fs output_path \<noteq> Unreadable msg"
  shows "\<exists>r. verify_bad_char_elimination fs input_file (Some output_path) bad_chars_arg = Inr r"
proof (cases "fs output_path")
  case Absent
  from verify_missing_output [OF assms(1) Absent] show ?thesis by blast
next
  case (Unreadable msg)
  with assms(2) show ?thesis by simp
next
  case (Content processed)
  obtain ia where ia: "analyze_shellcode_for_bad_chars original bad_chars_arg = Inr ia"
    using analyze_total by blast
  obtain oa where oa: "analyze_shellcode_for_bad_chars processed bad_chars_arg = Inr oa"
    using analyze_total by blast
  from assms(1) Content ia oa show ?thesis
    by (auto simp: verify_bad_char_elimination_def path_exists_def read_file_def
        analyze_Some_resolve Let_def)
qed

lemma batch_loop_no_exception:
  assumes "\<forall>f\<in>set files. \<exists>r. verify_bad_char_elimination fs f (om f) (Some S) = Inr r"
  shows "batch_loop fs coe S om files (st, rs) =
     (st\<lparr> successful := successful st +
             length (filter (\<lambda>f. verify_bad_char_elimination fs f (om f) (Some S) = Inr True) files),
          failed := failed st +
             length (filter (\<lambda>f. verify_bad_char_elimination fs f (om f) (Some S) = Inr False) files) \<rparr>,
      rs @ map (\<lambda>f. normal_entry f (om f)
                  (verify_bad_char_elimination fs f (om f) (Some S) = Inr True)) files)"
  using assms
proof (induction files arbitrary: st rs)
  case Nil
  show ?case by simp
next
  case (Cons f files)
  from Cons.prems obtain r where r: "verify_bad_char_elimination fs f (om f) (Some S) = Inr r"
    by auto
  from Cons.prems have rest: "\<forall>f\<in>set files. \<exists>r. verify_bad_char_elimination fs f (om f) (Some S) = Inr r"
    by simp
  show ?case
    by (cases r) (simp_all add: r Cons.IH [OF rest] normal_entry_def)
qed

lemma batch_loop_stops_at_exception:
  assumes "verify_bad_char_elimination fs f (om f) (Some S) = Inl e"
  shows "batch_loop fs False S om (f # rest) (st, rs) =
     (st\<lparr> errors := errors st + 1 \<rparr>,
      rs @ [\<lparr> entry_file = f, entry_output_file = om f, entry_success = False,
              entry_status = ''ERROR'', entry_error = Some (str_exn e) \<rparr>])"
  using assms by (simp add: Let_def)

lemma filter_partition_bool:
  assumes "\<forall>x\<in>set xs. \<exists>r. g x = Inr r"
  shows "length (filter (\<lambda>x. g x = Inr True) xs) + length (filter (\<lambda>x. g x = Inr False) xs)
           = length xs"
  using assms
proof (induction xs)
  case Nil
  show ?case by simp
next
  case (Cons x xs)
  from Cons.prems obtain r where "g x = Inr r" by auto
  with Cons show ?case by (cases r) auto
qed

section \<open>Claims about the batch verifier\<close>

text \<open>
  Claim C5. The claim says that with \<^verbatim>\<open>continue_on_error=False\<close> a second file whose
  output counterpart is missing is recorded as an error, that \<^verbatim>\<open>errors\<close> is 1 and that
  the files after it are never verified. The engine returns \<^verbatim>\<open>False\<close> for a missing
  output file and raises nothing, so the loop takes the branch of a failed
  verification: for three files \<^verbatim>\<open>a.bin\<close>, \<^verbatim>\<open>b.bin\<close> and \<^verbatim>\<open>c.bin\<close> with the output
  files \<^verbatim>\<open>out/a.bin\<close> and \<^verbatim>\<open>out/c.bin\<close> only, all three are verified, the second has
  status \<^verbatim>\<open>FAILED\<close> and \<^verbatim>\<open>errors\<close> is 0.
\<close>

theorem batch_missing_output_is_not_an_error:
  "batch_run
     (\<lambda>p. if p \<in> {''a.bin'', ''b.bin'', ''c.bin''} then Content [0, 1]
           else if p \<in> {''out/a.bin'', ''out/c.bin''} then Content [1, 2] else Absent)
     (\<lambda>dir f. dir @ ''/'' @ f) [''a.bin'', ''b.bin'', ''c.bin''] (Some ''out'') False None
   = (\<lparr> total_files = 3, successful = 2, failed = 1, errors = 0 \<rparr>,
      [\<lparr> entry_file = ''a.bin'', entry_output_file = Some ''out/a.bin'',
         entry_success = True, entry_status = ''SUCCESS'', entry_error = None \<rparr>,
       \<lparr> entry_file = ''b.bin'', entry_output_file = Some ''out/b.bin'',
         entry_success = False, entry_status = ''FAILED'', entry_error = None \<rparr>,
       \<lparr> entry_file = ''c.bin'', entry_output_file = Some ''out/c.bin'',
         entry_success = True, entry_status = ''SUCCESS'', entry_error = None \<rparr>])"
  by code_simp

text \<open>
  Claim C5, as amended. In a batch with \<^verbatim>\<open>continue_on_error=False\<close> and an output
  directory, where every discovered input file can be read, no output counterpart is
  unreadable and the output counterpart of the file at index \<open>k\<close> (the second file
  for \<open>k = 1\<close>) is missing: that file is recorded with status \<^verbatim>\<open>FAILED\<close> and
  \<^verbatim>\<open>success = False\<close>, it is counted in \<^verbatim>\<open>failed\<close>, \<^verbatim>\<open>errors\<close> stays 0, and every
  discovered file is verified, in order.
\<close>

theorem batch_missing_output_counts_as_failed:
  assumes dir: "dir \<noteq> []"
    and inputs: "\<forall>f\<in>set input_files. \<exists>original. fs f = Content original"
    and outputs: "\<forall>f\<in>set input_files. \<forall>msg. fs (mirror dir f) \<noteq> Unreadable msg"
    and k: "k < length input_files"
    and missing: "fs (mirror dir (input_files ! k)) = Absent"
  shows "errors (batch_verify_bad_char_elimination fs mirror input_files (Some dir) False bad_chars_arg) = 0 \<and>
         1 \<le> failed (batch_verify_bad_char_elimination fs mirror input_files (Some dir) False bad_chars_arg) \<and>
         successful (batch_verify_bad_char_elimination fs mirror input_files (Some dir) False bad_chars_arg)
           + failed (batch_verify_bad_char_elimination fs mirror input_files (Some dir) False bad_chars_arg)
           = length input_files \<and>
         map entry_file (snd (batch_run fs mirror input_files (Some dir) False bad_chars_arg))
           = input_files \<and>
         entry_status (snd (batch_run fs mirror input_files (Some dir) False bad_chars_arg) ! k)
           = ''FAILED'' \<and>
         \<not> entry_success (snd (batch_run fs mirror input_files (Some dir) False bad_chars_arg) ! k)"
proof -
  define S where "S = (case bad_chars_arg of None \<Rightarrow> {0} | Some S \<Rightarrow> S)"
  define om where "om = (\<lambda>f. if f \<in> set input_files then Some (mirror dir f) else None)"
  define v where "v = (\<lambda>f. verify_bad_char_elimination fs f (om f) (Some S))"
  define entries where "entries = map (\<lambda>f. normal_entry f (om f) (v f = Inr True)) input_files"
  define n_ok where "n_ok = length (filter (\<lambda>f. v f = Inr True) input_files)"
  define n_bad where "n_bad = length (filter (\<lambda>f. v f = Inr False) input_files)"
  from k have ne: "input_files \<noteq> []" by auto
  have ret: "\<forall>f\<in>set input_files. \<exists>r. v f = Inr r"
  proof
    fix f assume f: "f \<in> set input_files"
    from inputs f obtain original where o: "fs f = Content original" by blast
    from outputs f have u: "\<forall>msg. fs (mirror dir f) \<noteq> Unreadable msg" by blast
    from verify_returns [OF o u] f show "\<exists>r. v f = Inr r" by (simp add: v_def om_def)
  qed
  have loop: "batch_loop fs False S om input_files
                (\<lparr> total_files = length input_files, successful = 0, failed = 0, errors = 0 \<rparr>, [])
              = (\<lparr> total_files = length input_files, successful = n_ok, failed = n_bad,
                   errors = 0 \<rparr>, entries)"
    using batch_loop_no_exception [of input_files fs om S False
        "\<lparr> total_files = length input_files, successful = 0, failed = 0, errors = 0 \<rparr>" "[]"]
      ret
    by (simp add: v_def n_ok_def n_bad_def entries_def)
  have run: "batch_run fs mirror input_files (Some dir) False bad_chars_arg =
      (\<lparr> total_files = length input_files, successful = n_ok, failed = n_bad, errors = 0 \<rparr>,
       entries)"
    using ne dir loop by (simp add: batch_run_def S_def om_def)
  have kin: "input_files ! k \<in> set input_files" using k by simp
  from inputs kin obtain original where o: "fs (input_files ! k) = Content original" by blast
  have vk: "v (input_files ! k) = Inr False"
    using verify_missing_output [OF o missing] kin by (simp add: v_def om_def)
  have part: "n_ok + n_bad = length input_files"
    unfolding n_ok_def n_bad_def by (rule filter_partition_bool [OF ret])
  have "input_files ! k \<in> set (filter (\<lambda>f. v f = Inr False) input_files)"
    using kin vk by simp
  then have "0 < n_bad" unfolding n_bad_def by (rule length_pos_if_in_set)
  then have pos: "1 \<le> n_bad" by simp
  have names: "map entry_file entries = input_files"
    unfolding entries_def by (induction input_files) (simp_all add: normal_entry_def)
  have ek: "entries ! k = normal_entry (input_files ! k) (om (input_files ! k)) False"
    using k vk by (simp add: entries_def)
  show ?thesis
    using part pos names
    by (simp add: batch_verify_bad_char_elimination_def run ek normal_entry_def)
qed

theorem batch_missing_output_counts_as_failed_witness:
  "errors (batch_verify_bad_char_elimination
      (\<lambda>p. if p \<in> {''a.bin'', ''b.bin'', ''c.bin''} then Content [0, 1]
            else if p \<in> {''out/a.bin'', ''out/c.bin''} then Content [1, 2] else Absent)
      (\<lambda>dir f. dir @ ''/'' @ f) [''a.bin'', ''b.bin'', ''c.bin''] (Some ''out'') False None) = 0 \<and>
   entry_status (snd (batch_run
      (\<lambda>p. if p \<in> {''a.bin'', ''b.bin'', ''c.bin''} then Content [0, 1]
            else if p \<in> {''out/a.bin'', ''out/c.bin''} then Content [1, 2] else Absent)
      (\<lambda>dir f. dir @ ''/'' @ f) [''a.bin'', ''b.bin'', ''c.bin''] (Some ''out'') False None) ! 1)
     = ''FAILED''"
proof -
  let ?fs = "\<lambda>p. if p \<in> {''a.bin'', ''b.bin'', ''c.bin''} then Content [0, 1]
                 else if p \<in> {''out/a.bin'', ''out/c.bin''} then Content [1, 2] else Absent"
  let ?mirror = "\<lambda>dir f. dir @ ''/'' @ f"
  let ?files = "[''a.bin'', ''b.bin'', ''c.bin'']"
  have h1: "''out'' \<noteq> []" by simp
  have h2: "\<forall>f\<in>set ?files. \<exists>original. ?fs f = Content original" by simp
  have h3: "\<forall>f\<in>set ?files. \<forall>msg. ?fs (?mirror ''out'' f) \<noteq> Unreadable msg" by simp
  have h4: "1 < length ?files" by simp
  have h5: "?fs (?mirror ''out'' (?files ! 1)) = Absent" by simp
  note r = batch_missing_output_counts_as_failed
    [where dir = "''out''" and input_files = ?files and fs = ?fs and mirror = ?mirror
       and k = 1 and bad_chars_arg = None, OF h1 h2 h3 h4 h5]
  from r [THEN conjunct1] r [THEN conjunct2, THEN conjunct2, THEN conjunct2, THEN conjunct2, THEN conjunct1]
  show ?thesis by (rule conjI)
qed

section \<open>Properties of the parser of the bad-character option\<close>

lemma valid_byte_range: "valid_byte part = Some v \<Longrightarrow> 0 \<le> v \<and> v \<le> 255"
  by (auto simp: valid_byte_def split: option.splits if_splits)

lemma py_int16_empty: "py_int16 [] = None"
  by (simp add: py_int16_def)

lemma valid_byte_empty: "valid_byte [] = None"
  by (simp add: valid_byte_def py_int16_empty)

lemma parse_parts_result:
  "parse_parts parts (bad_chars, warnings) =
     (bad_chars \<union> {v. \<exists>raw\<in>set parts. valid_byte (strip raw) = Some v},
      warnings @ map warning_line
        (filter (\<lambda>part. part \<noteq> [] \<and> valid_byte part = None) (map strip parts)))"
proof (induction parts arbitrary: bad_chars warnings)
  case Nil
  show ?case by simp
next
  case (Cons raw rest)
  show ?case
  proof (cases "strip raw = []")
    case True
    then show ?thesis by (simp add: Cons.IH valid_byte_empty)
  next
    case ne: False
    show ?thesis
    proof (cases "py_int16 (strip raw)")
      case None
      then have vb: "valid_byte (strip raw) = None" by (simp add: valid_byte_def)
      from ne None vb show ?thesis
        by (simp add: Cons.IH warning_line_def)
    next
      case (Some byte_val)
      show ?thesis
      proof (cases "0 \<le> byte_val \<and> byte_val \<le> 255")
        case True
        with Some have vb: "valid_byte (strip raw) = Some byte_val" by (simp add: valid_byte_def)
        have "insert byte_val bad_chars \<union> {v. \<exists>raw\<in>set rest. valid_byte (strip raw) = Some v}
              = bad_chars \<union> {v. \<exists>r\<in>set (raw # rest). valid_byte (strip r) = Some v}"
          using vb by auto
        with ne Some True vb show ?thesis
          by (simp add: Cons.IH)
      next
        case False
        with Some have vb: "valid_byte (strip raw) = None" by (simp add: valid_byte_def)
        from ne Some False vb show ?thesis
          by (simp add: Cons.IH warning_line_def)
      qed
    qed
  qed
qed

lemma split_comma_from_nonempty: "split_comma_from s current \<noteq> []"
  by (induction s arbitrary: current) auto

lemma parse_bad_chars_result:
  "parse_bad_chars s =
     (if {v. \<exists>raw\<in>set (split_comma s). valid_byte (strip raw) = Some v} = {} then {0}
      else {v. \<exists>raw\<in>set (split_comma s). valid_byte (strip raw) = Some v},
      map warning_line
        (filter (\<lambda>part. part \<noteq> [] \<and> valid_byte part = None) (map strip (split_comma s))))"
proof (cases "s = []")
  case True
  then show ?thesis
    by (simp add: parse_bad_chars_def split_comma_def strip_def valid_byte_empty)
next
  case False
  then show ?thesis
    by (simp add: parse_bad_chars_def parse_parts_result)
qed

section \<open>Claims about the parser of the bad-character option\<close>

text \<open>
  Claim C8. The argument \<^verbatim>\<open>"00,0a,ZZ"\<close> yields the set \<open>{0x00, 0x0a}\<close> and one warning
  for \<^verbatim>\<open>ZZ\<close>. The empty argument yields \<open>{0x00}\<close>, and so does every argument none of
  whose parts is a byte. Every byte written by a part of the argument is in the
  returned set, every member of the returned set is 0 or is written by a part, and
  every member lies between 0 and 255. One warning is printed, in order, for each
  non-empty part that is not a byte: a part that \<^verbatim>\<open>int(part, 16)\<close> rejects, or whose
  value is outside 0 to 255.
\<close>

theorem parse_bad_chars_keeps_valid_bytes:
  "parse_bad_chars ''00,0a,ZZ'' = ({0, 10}, [''[WARNING] Invalid hex value: ZZ'']) \<and>
   fst (parse_bad_chars []) = {0} \<and>
   ((\<forall>raw\<in>set (split_comma s). valid_byte (strip raw) = None) \<longrightarrow>
      fst (parse_bad_chars s) = {0}) \<and>
   (\<forall>raw\<in>set (split_comma s). \<forall>v. valid_byte (strip raw) = Some v \<longrightarrow>
      v \<in> fst (parse_bad_chars s)) \<and>
   (\<forall>v\<in>fst (parse_bad_chars s).
      v = 0 \<or> (\<exists>raw\<in>set (split_comma s). valid_byte (strip raw) = Some v)) \<and>
   (\<forall>v\<in>fst (parse_bad_chars s). 0 \<le> v \<and> v \<le> 255) \<and>
   snd (parse_bad_chars s) =
     map warning_line
       (filter (\<lambda>part. part \<noteq> [] \<and> valid_byte part = None) (map strip (split_comma s)))"
proof (intro conjI)
  show "parse_bad_chars ''00,0a,ZZ'' = ({0, 10}, [''[WARNING] Invalid hex value: ZZ''])"
    by code_simp
  show "fst (parse_bad_chars []) = {0}"
    by (simp add: parse_bad_chars_def)
  show "(\<forall>raw\<in>set (split_comma s). valid_byte (strip raw) = None) \<longrightarrow>
          fst (parse_bad_chars s) = {0}"
    by (simp add: parse_bad_chars_result)
  show "\<forall>raw\<in>set (split_comma s). \<forall>v. valid_byte (strip raw) = Some v \<longrightarrow>
          v \<in> fst (parse_bad_chars s)"
    by (auto simp: parse_bad_chars_result)
  show "\<forall>v\<in>fst (parse_bad_chars s).
          v = 0 \<or> (\<exists>raw\<in>set (split_comma s). valid_byte (strip raw) = Some v)"
    by (auto simp: parse_bad_chars_result split: if_splits)
  show "\<forall>v\<in>fst (parse_bad_chars s). 0 \<le> v \<and> v \<le> 255"
    by (auto simp: parse_bad_chars_result split: if_splits dest: valid_byte_range)
  show "snd (parse_bad_chars s) =
     map warning_line
       (filter (\<lambda>part. part \<noteq> [] \<and> valid_byte part = None) (map strip (split_comma s)))"
    by (simp add: parse_bad_chars_result)
qed

theorem parse_bad_chars_keeps_valid_bytes_witness:
  "valid_byte (strip ''ZZ'') = None \<and> valid_byte (strip '' 1ff'') = None \<and>
   valid_byte (strip ''0D'') = Some 13 \<and>
   fst (parse_bad_chars ''ZZ, 1ff'') = {0} \<and>
   13 \<in> fst (parse_bad_chars ''0D,ZZ'') \<and>
   snd (parse_bad_chars ''ZZ, 1ff'') =
     [''[WARNING] Invalid hex value: ZZ'', ''[WARNING] Byte value out of range (0-255): 1ff'']"
proof -
  have s1: "split_comma ''ZZ, 1ff'' = [''ZZ'', '' 1ff'']" by code_simp
  have s2: "split_comma ''0D,ZZ'' = [''0D'', ''ZZ'']" by code_simp
  have v1: "valid_byte (strip ''ZZ'') = None" by code_simp
  have v2: "valid_byte (strip '' 1ff'') = None" by code_simp
  have v3: "valid_byte (strip ''0D'') = Some 13" by code_simp
  have t1: "strip ''ZZ'' = ''ZZ''" by code_simp
  have t2: "strip '' 1ff'' = ''1ff''" by code_simp
  have w1: "warning_line ''ZZ'' = ''[WARNING] Invalid hex value: ZZ''" by code_simp
  have w2: "warning_line ''1ff'' = ''[WARNING] Byte value out of range (0-255): 1ff''"
    by code_simp
  have n1: "valid_byte ''ZZ'' = None" using v1 t1 by simp
  have n2: "valid_byte ''1ff'' = None" using v2 t2 by simp
  note a = parse_bad_chars_keeps_valid_bytes [of "''ZZ, 1ff''"]
  note b = parse_bad_chars_keeps_valid_bytes [of "''0D,ZZ''"]
  have r1: "fst (parse_bad_chars ''ZZ, 1ff'') = {0}"
    using a [THEN conjunct2, THEN conjunct2, THEN conjunct1] s1 v1 v2 by simp
  have r2: "13 \<in> fst (parse_bad_chars ''0D,ZZ'')"
    using b [THEN conjunct2, THEN conjunct2, THEN conjunct2, THEN conjunct1] s2 v3 by simp
  have r3: "snd (parse_bad_chars ''ZZ, 1ff'') =
     [''[WARNING] Invalid hex value: ZZ'', ''[WARNING] Byte value out of range (0-255): 1ff'']"
    using a [THEN conjunct2, THEN conjunct2, THEN conjunct2, THEN conjunct2, THEN conjunct2,
              THEN conjunct2]
    by (simp add: s1 t1 t2 n1 n2 w1 w2)
  from v1 v2 v3 r1 r2 r3 show ?thesis by simp
qed

end
